theory Spec2Isabelle
  imports Main "HOL-Library.Multiset" "HOL-Library.Sublist"
begin

section \<open>The syntax tree and the scope information of the host\<close>

text \<open>
  The rule \<open>reactivity\<close> of \<open>dist/index.mjs\<close> is a set of handlers that the linter calls
  while it walks a syntax tree. The tree, the scope manager and the source text belong to
  the host; the rule only reads them. They are modelled as data:

  \<^item> the tree is a finite rose tree, and a node is identified by its position: the list
    of child indices from the node up to the root (innermost index first). The parent
    link \<open>node.parent\<close> is the tail of that list, so parent chains are finite and acyclic
    by construction, as in a syntax tree, and \<open>===\<close> on nodes is equality of positions;
  \<open>Program.parent\<close> is \<open>null\<close>;
  \<^item> a node carries its \<open>type\<close>, the scalar attributes the rule reads, and for every
    named child field (\<open>callee\<close>, \<open>arguments\<close>, \<open>id\<close>, ...) the indices of the children
    that stand in it (\<open>None\<close> for a hole of an array pattern);
  \<^item> a variable of the scope manager is an index into the host's table of variables.
\<close>

datatype node_type =
    Program | FunctionExpression | ArrowFunctionExpression | FunctionDeclaration
  | Identifier | Literal | CallExpression | NewExpression | MemberExpression
  | VariableDeclaration | VariableDeclarator | AssignmentExpression | ExpressionStatement
  | TemplateLiteral | TaggedTemplateExpression | BinaryExpression | UnaryExpression
  | ArrayExpression | ArrayPattern | ObjectExpression | Property | SpreadElement
  | ImportDeclaration | ImportSpecifier
  | JSXElement | JSXFragment | JSXOpeningElement | JSXAttribute | JSXSpreadAttribute
  | JSXExpressionContainer | JSXIdentifier | JSXNamespacedName | JSXMemberExpression
  | TSAsExpression | TSNonNullExpression | TSSatisfiesExpression
  | OtherType string

datatype field =
    F_callee | F_arguments | F_id | F_init | F_params | F_object | F_property
  | F_left | F_right | F_expression | F_argument | F_elements | F_properties
  | F_value | F_quasi | F_expressions | F_openingElement | F_name | F_namespace
  | F_source | F_specifiers | F_imported | F_local
  | F_body | F_key | F_declarations | F_tag | F_quasis | F_test | F_consequent | F_alternate
  | OtherField string

record node_info =
  ntype :: node_type
  name :: string
  operator :: string
  async :: bool
  computed :: bool
  kind :: string
  strValue :: string
  links :: "(field \<times> nat option list) list"

datatype ast = Node node_info "ast list"

type_synonym node = "nat list"

fun subtree :: "ast \<Rightarrow> nat list \<Rightarrow> ast option" where
  "subtree t [] = Some t"
| "subtree (Node i ks) (k # p) = (if k < length ks then subtree (ks ! k) p else None)"

fun info_of :: "ast \<Rightarrow> node_info" where
  "info_of (Node i ks) = i"

fun kids_of :: "ast \<Rightarrow> ast list" where
  "kids_of (Node i ks) = ks"

text \<open>The scope manager: \<open>Reference\<close>, \<open>Definition\<close> and \<open>Variable\<close> objects.\<close>

record reference =
  ident :: node
  init :: bool
  isRead :: bool
  isWrite :: bool

definition isReadOnly :: "reference \<Rightarrow> bool" where
  "isReadOnly r = (isRead r \<and> \<not> isWrite r)"

datatype def_type = FunctionName | ClassName | ImportBinding | Variable | Parameter | OtherDef

record var_def =
  def_type :: def_type
  def_node :: node

record scope_variable =
  v_references :: "reference list"
  v_defs :: "var_def list"

type_synonym var = nat

text \<open>
  What the host provides to one run. \<open>findVariableName scope s\<close> and
  \<open>findVariableNode scope n\<close> are \<open>ASTUtils.findVariable(context.getScope(), ...)\<close> with a
  name and with an identifier node; \<open>context.getScope()\<close> is the scope of the node the
  walk is at, so the handlers pass that node. \<open>callDepth\<close> is the depth of recursion the
  engine allows before it raises a \<open>RangeError\<close>. \<open>visitorKeys\<close> is the table \<open>VisitorKeys\<close> of
  the library \<open>estraverse\<close>, which the rule imports and which is no part of the sources: for
  a node type the child fields the library descends into, in its order, and \<open>None\<close> for a
  type it has no entry for.
\<close>

record provider =
  root :: ast
  variables :: "var \<Rightarrow> scope_variable"
  findVariableName :: "node \<Rightarrow> string \<Rightarrow> var option"
  findVariableNode :: "node \<Rightarrow> node \<Rightarrow> var option"
  getDeclaredVariables :: "node \<Rightarrow> var list"
  getText :: "node \<Rightarrow> string"
  customReactiveFunctions :: "string list"
  callDepth :: nat
  visitorKeys :: "node_type \<Rightarrow> field list option"

definition info :: "provider \<Rightarrow> node \<Rightarrow> node_info option" where
  "info P n = map_option info_of (subtree (root P) (rev n))"

fun parent :: "node \<Rightarrow> node option" where
  "parent [] = None"
| "parent (i # p) = Some p"

text \<open>\<open>x?.type\<close>, for a node that may be \<open>undefined\<close>.\<close>

fun ty :: "provider \<Rightarrow> node option \<Rightarrow> node_type option" where
  "ty P None = None"
| "ty P (Some n) = map_option ntype (info P n)"

definition attr :: "provider \<Rightarrow> (node_info \<Rightarrow> 'a) \<Rightarrow> 'a \<Rightarrow> node option \<Rightarrow> 'a" where
  "attr P f d n = (case n of None \<Rightarrow> d
     | Some m \<Rightarrow> (case info P m of None \<Rightarrow> d | Some i \<Rightarrow> f i))"

text \<open>\<open>x.name\<close> as a string. The \<open>name\<close> of a \<open>JSXNamespacedName\<close> is a node, which equals no
  string and matches none of the patterns below; it reads as the empty string.\<close>

definition nameOf :: "provider \<Rightarrow> node option \<Rightarrow> string" where
  "nameOf P n = (if ty P n = Some JSXNamespacedName then [] else attr P name [] n)"

text \<open>\<open>x.parent\<close> of a node that may be \<open>undefined\<close>.\<close>

definition up :: "node option \<Rightarrow> node option" where
  "up n = (case n of None \<Rightarrow> None | Some m \<Rightarrow> parent m)"

text \<open>A list-valued child field, and a single-valued one (\<open>None\<close> when absent).\<close>

definition children :: "provider \<Rightarrow> node \<Rightarrow> field \<Rightarrow> node option list" where
  "children P n f = (case info P n of None \<Rightarrow> []
     | Some i \<Rightarrow> (case map_of (links i) f of None \<Rightarrow> []
         | Some ks \<Rightarrow> map (map_option (\<lambda>k. k # n)) ks))"

definition child :: "provider \<Rightarrow> node option \<Rightarrow> field \<Rightarrow> node option" where
  "child P n f = (case n of None \<Rightarrow> None
     | Some m \<Rightarrow> (case children P m f of [] \<Rightarrow> None | c # cs \<Rightarrow> c))"

text \<open>\<open>xs[i]\<close> of a JavaScript array: \<open>undefined\<close> out of range.\<close>

definition at_index :: "'a option list \<Rightarrow> nat \<Rightarrow> 'a option" where
  "at_index xs i = (if i < length xs then xs ! i else None)"

section \<open>Regular expressions and string tests of the source\<close>

definition is_upper :: "char \<Rightarrow> bool" where
  "is_upper c = (let k = (of_char c :: nat) in 65 \<le> k \<and> k \<le> 90)"

definition is_lower :: "char \<Rightarrow> bool" where
  "is_lower c = (let k = (of_char c :: nat) in 97 \<le> k \<and> k \<le> 122)"

definition startsWith :: "string \<Rightarrow> string \<Rightarrow> bool" where
  "startsWith p s = (take (length p) s = p)"

definition endsWith :: "string \<Rightarrow> string \<Rightarrow> bool" where
  "endsWith p s = (length p \<le> length s \<and> drop (length s - length p) s = p)"

fun containsStr :: "string \<Rightarrow> string \<Rightarrow> bool" where
  "containsStr p [] = (p = [])"
| "containsStr p (c # cs) = (startsWith p (c # cs) \<or> containsStr p cs)"

text \<open>\<open>/^(?:p1|p2|...)[A-Z]/\<close>: one of the prefixes, then an upper-case ASCII letter.\<close>

definition prefixThenUpper :: "string list \<Rightarrow> string \<Rightarrow> bool" where
  "prefixThenUpper ps s =
     list_ex (\<lambda>p. startsWith p s \<and> length p < length s \<and> is_upper (s ! length p)) ps"

text \<open>\<open>domElementRegex = /^[a-z]/\<close> and \<open>propsRegex = /[pP]rops/\<close>.\<close>

definition isDOMElementName :: "string \<Rightarrow> bool" where
  "isDOMElementName s = (s \<noteq> [] \<and> is_lower (hd s))"

definition isPropsByName :: "string \<Rightarrow> bool" where
  "isPropsByName s = (containsStr ''props'' s \<or> containsStr ''Props'' s)"

section \<open>Tree utilities\<close>

text \<open>
  \<open>find(node, predicate)\<close> walks the parent links from \<open>node\<close> itself; \<open>findParent\<close> starts
  at the parent. The loop \<open>while (n) { ...; n = n.parent }\<close> is recursion on the position.
\<close>

fun find_node :: "(node \<Rightarrow> bool) \<Rightarrow> node \<Rightarrow> node option" where
  "find_node pred [] = (if pred [] then Some [] else None)"
| "find_node pred (i # p) = (if pred (i # p) then Some (i # p) else find_node pred p)"

definition findParent :: "(node \<Rightarrow> bool) \<Rightarrow> node \<Rightarrow> node option" where
  "findParent pred n = (case parent n of None \<Rightarrow> None | Some p \<Rightarrow> find_node pred p)"

definition FUNCTION_TYPES :: "node_type list" where
  "FUNCTION_TYPES = [FunctionExpression, ArrowFunctionExpression, FunctionDeclaration]"

definition isFunctionNode :: "provider \<Rightarrow> node option \<Rightarrow> bool" where
  "isFunctionNode P n = (case ty P n of None \<Rightarrow> False | Some t \<Rightarrow> t \<in> set FUNCTION_TYPES)"

definition isProgramOrFunctionNode :: "provider \<Rightarrow> node option \<Rightarrow> bool" where
  "isProgramOrFunctionNode P n =
     (case ty P n of None \<Rightarrow> False | Some t \<Rightarrow> t \<in> set (Program # FUNCTION_TYPES))"

definition isJSXElementOrFragment :: "provider \<Rightarrow> node option \<Rightarrow> bool" where
  "isJSXElementOrFragment P n = (ty P n = Some JSXElement \<or> ty P n = Some JSXFragment)"

text \<open>\<open>getFunctionName\<close>: \<open>None\<close> is \<open>null\<close>.\<close>

definition getFunctionName :: "provider \<Rightarrow> node \<Rightarrow> string option" where
  "getFunctionName P n =
     (if (ty P (Some n) = Some FunctionDeclaration \<or> ty P (Some n) = Some FunctionExpression)
          \<and> child P (Some n) F_id \<noteq> None
      then Some (nameOf P (child P (Some n) F_id))
      else if ty P (parent n) = Some VariableDeclarator
          \<and> ty P (child P (parent n) F_id) = Some Identifier
      then Some (nameOf P (child P (parent n) F_id))
      else None)"

definition findInScope :: "node \<Rightarrow> node \<Rightarrow> (node \<Rightarrow> bool) \<Rightarrow> node option" where
  "findInScope n scope pred =
     (let found = find_node (\<lambda>n2. n2 = scope \<or> pred n2) n
      in if found = Some scope \<and> \<not> pred n then None else found)"

text \<open>
  \<open>ignoreTransparentWrappers(node, up)\<close>. Going up is recursion on the position; going
  down follows \<open>node.expression\<close> into the subtree.
\<close>

definition isTransparentWrapper :: "node_type option \<Rightarrow> bool" where
  "isTransparentWrapper t =
     (t = Some TSAsExpression \<or> t = Some TSNonNullExpression \<or> t = Some TSSatisfiesExpression)"

fun ignoreTransparentWrappersUp :: "provider \<Rightarrow> node \<Rightarrow> node" where
  "ignoreTransparentWrappersUp P [] = []"
| "ignoreTransparentWrappersUp P (i # p) =
     (if isTransparentWrapper (ty P (Some (i # p))) then ignoreTransparentWrappersUp P p
      else i # p)"

lemma size_nth_kid: "k < length ks \<Longrightarrow> size (ks ! k) < Suc (size_list size ks)"
  using size_list_estimation' [of "ks ! k" ks "size (ks ! k)" size] by simp

function wrappersDown :: "ast \<Rightarrow> node \<Rightarrow> node" where
  "wrappersDown (Node i ks) n =
     (if isTransparentWrapper (Some (ntype i)) then
        (case map_of (links i) F_expression of
           Some (Some k # r) \<Rightarrow> (if k < length ks then wrappersDown (ks ! k) (k # n) else n)
         | _ \<Rightarrow> n)
      else n)"
  by pat_completeness auto
termination
  by (relation "measure (\<lambda>(t, n). size t)") (auto simp: size_nth_kid)

definition ignoreTransparentWrappers :: "provider \<Rightarrow> node \<Rightarrow> node" where
  "ignoreTransparentWrappers P n =
     (case subtree (root P) (rev n) of None \<Rightarrow> n | Some t \<Rightarrow> wrappersDown t n)"

section \<open>Errors and the state of one run\<close>

text \<open>
  What aborts the run: the two \<open>throw new Error(...)\<close> of the rule
  (\<open>"This should never happen"\<close> in \<open>findDeepestDeclarationScope\<close>,
  \<open>"this shouldn't happen!"\<close> in \<open>handleTrackedScopes\<close>), a property read on
  \<open>undefined\<close> (\<open>currentScope()\<close> of an empty stack), recursion deeper than the engine
  allows, and the error of \<open>estraverse\<close> on a node type it has no keys for.
\<close>

datatype error = NeverHappen | ShouldntHappen | TypeError | RangeError | UnknownNodeType

definition andThen :: "error + 'a \<Rightarrow> ('a \<Rightarrow> error + 'b) \<Rightarrow> error + 'b" where
  "andThen m f = (case m of Inl e \<Rightarrow> Inl e | Inr x \<Rightarrow> f x)"

lemma andThen_simps [simp]:
  "andThen (Inl e) f = Inl e"
  "andThen (Inr x) f = f x"
  by (simp_all add: andThen_def)

lemma andThen_cong [fundef_cong]:
  "m = m' \<Longrightarrow> (\<And>x. m' = Inr x \<Longrightarrow> f x = f' x) \<Longrightarrow> andThen m f = andThen m' f'"
  by (cases m') (simp_all add: andThen_def)

lemma andThen_Inr_iff: "andThen m f = Inr y \<longleftrightarrow> (\<exists>x. m = Inr x \<and> f x = Inr y)"
  by (cases m) simp_all

fun forEach :: "('a \<Rightarrow> 's \<Rightarrow> error + 's) \<Rightarrow> 'a list \<Rightarrow> 's \<Rightarrow> error + 's" where
  "forEach f [] st = Inr st"
| "forEach f (x # xs) st = andThen (f x st) (forEach f xs)"

datatype expect = ExpectFunction | ExpectCalledFunction | ExpectExpression

record trackedScope =
  ts_node :: "node option"
  expect :: expect

text \<open>
  \<open>class ScopeStackItem\<close>. The \<open>Set\<close> of unnamed derived signals is a list without
  repetition in insertion order, which is the order a \<open>Set\<close> iterates in.
\<close>

record ScopeStackItem =
  node :: node
  trackedScopes :: "trackedScope list"
  unnamedDerivedSignals :: "node list"
  hasJSX :: bool

definition newScopeStackItem :: "node \<Rightarrow> ScopeStackItem" where
  "newScopeStackItem n =
     \<lparr>node = n, trackedScopes = [], unnamedDerivedSignals = [], hasJSX = False\<rparr>"

text \<open>
  An entry of \<open>signals\<close> or \<open>props\<close>: the object \<open>{references, variable,
  declarationScope}\<close>. The object has an identity that survives the updates of its fields
  and the re-filtering of the array; \<open>bid\<close> is that identity (the number of entries
  created before it). No function of the rule reads it.
\<close>

record binding =
  references :: "reference list"
  variable :: var
  declarationScope :: node
  bid :: nat

datatype messageId =
    noWrite | untrackedReactive | expectedFunctionGotExpression | badSignal
  | badUnnamedDerivedSignal | shouldDestructure | shouldAssign | noAsyncTrackedScope

text \<open>A call of \<open>context.report\<close>: the node (or the function whose head is the location),
  the message and its data.\<close>

record report =
  r_node :: node
  messageId :: messageId
  r_data :: "(string \<times> string) list"

text \<open>
  Everything \<open>create\<close> allocates for one run: the \<open>ScopeStack\<close> (an array of frames,
  index \<open>0\<close> the outermost; \<open>syncCallbacks\<close>, \<open>signals\<close>, \<open>props\<close>), the \<open>importMap\<close> of
  \<open>trackImports\<close>, and what the run has produced so far: the reports handed to
  \<open>context.report\<close>, the items the two \<open>consume...ReferencesInScope\<close> generators have
  yielded, each with the identity of the entry it was taken from, and the variables the
  entries of \<open>signals\<close> and \<open>props\<close> were created for, in the order of their creation
  (\<open>registered\<close>; the identity of an entry is its index there). No function of the rule
  reads the last two.
\<close>

record state =
  stack :: "ScopeStackItem list"
  syncCallbacks :: "node list"
  signals :: "binding list"
  props :: "binding list"
  importMap :: "string \<Rightarrow> string option"
  reports :: "report list"
  registered :: "var list"
  yielded :: "(nat \<times> reference \<times> node) list"

abbreviation allocated :: "state \<Rightarrow> nat" where
  "allocated st \<equiv> length (registered st)"

definition create :: state where
  "create = \<lparr>stack = [], syncCallbacks = [], signals = [], props = [],
     importMap = (\<lambda>k. None), reports = [], registered = [], yielded = []\<rparr>"

definition context_report :: "node \<Rightarrow> messageId \<Rightarrow> (string \<times> string) list \<Rightarrow> state \<Rightarrow> state" where
  "context_report n m d st =
     st\<lparr>reports := reports st @ [\<lparr>r_node = n, messageId = m, r_data = d\<rparr>]\<rparr>"

section \<open>The scope stack engine and the binding registry (\<open>class ScopeStack\<close>)\<close>

definition currentScope :: "state \<Rightarrow> ScopeStackItem option" where
  "currentScope st = (if stack st = [] then None else Some (last (stack st)))"

definition parentScope :: "state \<Rightarrow> ScopeStackItem option" where
  "parentScope st =
     (if length (stack st) < 2 then None else Some (stack st ! (length (stack st) - 2)))"

text \<open>
  \<open>findDeepestDeclarationScope\<close>: the loop \<open>for (i = length - 1; i >= 0; i -= 1)\<close> is
  \<open>scanStack\<close> started at \<open>length\<close>; falling out of the loop is the \<open>throw\<close>.
\<close>

fun scanStack :: "ScopeStackItem list \<Rightarrow> node \<Rightarrow> node \<Rightarrow> nat \<Rightarrow> error + node" where
  "scanStack s a b 0 = Inl NeverHappen"
| "scanStack s a b (Suc i) =
     (if a = node (s ! i) \<or> b = node (s ! i) then Inr (node (s ! i)) else scanStack s a b i)"

definition findDeepestDeclarationScope :: "state \<Rightarrow> node \<Rightarrow> node \<Rightarrow> error + node" where
  "findDeepestDeclarationScope st a b =
     (if a = b then Inr a else scanStack (stack st) a b (length (stack st)))"

definition newBinding :: "provider \<Rightarrow> state \<Rightarrow> var \<Rightarrow> node \<Rightarrow> binding" where
  "newBinding P st v scope =
     \<lparr>references = filter (\<lambda>r. \<not> init r) (v_references (variables P v)),
      variable = v, declarationScope = scope, bid = allocated st\<rparr>"

definition pushSignal :: "provider \<Rightarrow> var \<Rightarrow> node \<Rightarrow> state \<Rightarrow> state" where
  "pushSignal P v scope st =
     st\<lparr>signals := signals st @ [newBinding P st v scope],
        registered := registered st @ [v]\<rparr>"

definition pushProps :: "provider \<Rightarrow> var \<Rightarrow> node \<Rightarrow> state \<Rightarrow> state" where
  "pushProps P v scope st =
     st\<lparr>props := props st @ [newBinding P st v scope],
        registered := registered st @ [v]\<rparr>"

text \<open>\<open>foundSignal.declarationScope = ...\<close> writes to the first entry \<open>find\<close> returns.\<close>

fun setFirst :: "('a \<Rightarrow> bool) \<Rightarrow> ('a \<Rightarrow> 'a) \<Rightarrow> 'a list \<Rightarrow> 'a list" where
  "setFirst p f [] = []"
| "setFirst p f (x # xs) = (if p x then f x # xs else x # setFirst p f xs)"

definition pushUniqueSignal :: "provider \<Rightarrow> var \<Rightarrow> node \<Rightarrow> state \<Rightarrow> error + state" where
  "pushUniqueSignal P v scope st =
     (case find (\<lambda>s. variable s = v) (signals st) of
        None \<Rightarrow> Inr (pushSignal P v scope st)
      | Some foundSignal \<Rightarrow>
          andThen (findDeepestDeclarationScope st (declarationScope foundSignal) scope)
            (\<lambda>d. Inr (st\<lparr>signals := setFirst (\<lambda>s. variable s = v)
                         (\<lambda>s. s\<lparr>declarationScope := d\<rparr>) (signals st)\<rparr>)))"

text \<open>
  \<open>isReferenceInCurrentScope\<close>. The \<open>while\<close> loop replaces a synchronous callback by the
  function or program around it; it ends because each round moves up the tree.
\<close>

lemma find_node_length: "find_node pred n = Some m \<Longrightarrow> length m \<le> length n"
  by (induction n) (auto split: if_splits)

lemma findParent_length: "findParent pred n = Some m \<Longrightarrow> length m < length n"
  by (cases n) (auto simp: findParent_def dest: find_node_length)

function skipSyncCallbacks :: "provider \<Rightarrow> node list \<Rightarrow> node option \<Rightarrow> node option" where
  "skipSyncCallbacks P sync None = None"
| "skipSyncCallbacks P sync (Some n) =
     (if isFunctionNode P (Some n) \<and> n \<in> set sync
      then skipSyncCallbacks P sync (findParent (\<lambda>m. isProgramOrFunctionNode P (Some m)) n)
      else Some n)"
  by pat_completeness auto
termination
  by (relation "measure (\<lambda>(P, sync, n). case n of None \<Rightarrow> 0 | Some m \<Rightarrow> Suc (length m))")
     (auto split: option.splits dest: findParent_length)

definition isReferenceInCurrentScope :: "provider \<Rightarrow> state \<Rightarrow> reference \<Rightarrow> error + bool" where
  "isReferenceInCurrentScope P st r =
     (let parentFunction = skipSyncCallbacks P (syncCallbacks st)
            (findParent (\<lambda>m. isProgramOrFunctionNode P (Some m)) (ident r))
      in case currentScope st of
           None \<Rightarrow> Inl TypeError
         | Some c \<Rightarrow> Inr (parentFunction = Some (node c)))"

section \<open>The rule \<open>reactivity\<close>: imports, function entry, tracked scopes\<close>

text \<open>
  \<open>trackImports\<close>: the regular expression \<open>/^solid-js(?:\/?|\b)/\<close> accepts every source
  that starts with \<open>solid-js\<close> (its first alternative matches the empty string).
  \<open>matchImport\<close> is only ever used as a condition.
\<close>

definition handleImportDeclaration :: "provider \<Rightarrow> node \<Rightarrow> state \<Rightarrow> state" where
  "handleImportDeclaration P n st =
     (if startsWith ''solid-js'' (attr P strValue [] (child P (Some n) F_source)) then
        fold (\<lambda>specifier s.
                if ty P specifier = Some ImportSpecifier
                then s\<lparr>importMap := (importMap s)
                        (nameOf P (child P specifier F_imported)
                           := Some (nameOf P (child P specifier F_local)))\<rparr>
                else s)
             (children P n F_specifiers) st
      else st)"

definition matchImport :: "state \<Rightarrow> string list \<Rightarrow> string \<Rightarrow> bool" where
  "matchImport st imports str = list_ex (\<lambda>i. importMap st i = Some str) imports"

text \<open>
  \<open>markPropsOnCondition(node, cb)\<close>; \<open>scope\<close> is the node the walk is at. The callback
  of \<open>onFunctionExit\<close> reads \<open>currentScope().hasJSX\<close> and can fail on an empty stack.
\<close>

definition markPropsOnCondition ::
    "provider \<Rightarrow> node \<Rightarrow> node \<Rightarrow> (node \<Rightarrow> error + bool) \<Rightarrow> state \<Rightarrow> error + state" where
  "markPropsOnCondition P scope n cb st =
     (let params = children P n F_params in
      if length params = 1 \<and> ty P (at_index params 0) = Some Identifier
         \<and> ty P (parent n) \<noteq> Some JSXExpressionContainer
         \<and> ty P (parent n) \<noteq> Some TemplateLiteral
      then andThen (cb (the (at_index params 0)))
             (\<lambda>ok. if ok then
                      (case findVariableNode P scope (the (at_index params 0)) of
                         None \<Rightarrow> Inr st
                       | Some propsParam \<Rightarrow> Inr (pushProps P propsParam n st))
                    else Inr st)
      else Inr st)"

definition onFunctionEnter :: "provider \<Rightarrow> node \<Rightarrow> state \<Rightarrow> error + state" where
  "onFunctionEnter P n st =
     (if isFunctionNode P (Some n) then
        (if n \<in> set (syncCallbacks st) then Inr st
         else andThen
                (markPropsOnCondition P n n (\<lambda>param. Inr (isPropsByName (nameOf P (Some param)))) st)
                (\<lambda>s. Inr (s\<lparr>stack := stack s @ [newScopeStackItem n]\<rparr>)))
      else Inr (st\<lparr>stack := stack st @ [newScopeStackItem n]\<rparr>))"

text \<open>\<open>matchTrackedScope\<close>; \<open>scopeNode\<close> is \<open>currentScope().node\<close>.\<close>

definition matchTrackedScope :: "node \<Rightarrow> trackedScope \<Rightarrow> node \<Rightarrow> bool" where
  "matchTrackedScope scopeNode trackedScope n =
     (case expect trackedScope of
        ExpectFunction \<Rightarrow> Some n = ts_node trackedScope
      | ExpectCalledFunction \<Rightarrow> Some n = ts_node trackedScope
      | ExpectExpression \<Rightarrow>
          findInScope n scopeNode (\<lambda>n2. Some n2 = ts_node trackedScope) \<noteq> None)"

text \<open>The outermost member expression of a chain \<open>a.b.c\<close>, from its innermost one.\<close>

fun topMemberExpression :: "provider \<Rightarrow> node \<Rightarrow> node" where
  "topMemberExpression P [] = []"
| "topMemberExpression P (i # p) =
     (if ty P (Some p) = Some MemberExpression then topMemberExpression P p else i # p)"

text \<open>\<open>Set.prototype.add\<close> on a list without repetition.\<close>

definition setAdd :: "'a \<Rightarrow> 'a list \<Rightarrow> 'a list" where
  "setAdd x xs = (if x \<in> set xs then xs else xs @ [x])"

definition pushUnnamedDerivedSignal :: "node \<Rightarrow> state \<Rightarrow> state" where
  "pushUnnamedDerivedSignal currentScopeNode st =
     (let k = length (stack st) - 2 in
      st\<lparr>stack := (stack st)[k := (stack st ! k)
            \<lparr>unnamedDerivedSignals :=
               setAdd currentScopeNode (unnamedDerivedSignals (stack st ! k))\<rparr>]\<rparr>)"

definition handleTrackedScopes :: "provider \<Rightarrow> node \<Rightarrow> node \<Rightarrow> state \<Rightarrow> error + state" where
  "handleTrackedScopes P identifier declScope st =
     (case currentScope st of
        None \<Rightarrow> Inl TypeError
      | Some cur \<Rightarrow>
         (let currentScopeNode = node cur in
          if list_ex (\<lambda>trackedScope. matchTrackedScope currentScopeNode trackedScope identifier)
               (trackedScopes cur)
          then Inr st
          else
            (let matchedExpression =
                   list_ex (\<lambda>trackedScope. matchTrackedScope currentScopeNode
                              (trackedScope\<lparr>expect := ExpectExpression\<rparr>) identifier)
                     (trackedScopes cur)
             in
             if declScope = currentScopeNode then
               (let parentMemberExpression =
                      (if ty P (parent identifier) = Some MemberExpression
                       then Some (topMemberExpression P (the (parent identifier))) else None);
                    parentCallExpression =
                      (if ty P (parent identifier) = Some CallExpression
                       then parent identifier else None)
                in Inr (context_report
                     (case parentMemberExpression of Some m \<Rightarrow> m
                      | None \<Rightarrow> (case parentCallExpression of Some c \<Rightarrow> c | None \<Rightarrow> identifier))
                     (if matchedExpression then expectedFunctionGotExpression else untrackedReactive)
                     [(''name'', case parentMemberExpression of Some m \<Rightarrow> getText P m
                                 | None \<Rightarrow> nameOf P (Some identifier))]
                     st))
             else if parentScope st = None \<or> \<not> isFunctionNode P (Some currentScopeNode)
             then Inl ShouldntHappen
             else if ty P (Some currentScopeNode) = Some FunctionDeclaration then
               (case getDeclaredVariables P currentScopeNode of
                  functionVariable # r \<Rightarrow> pushUniqueSignal P functionVariable declScope st
                | [] \<Rightarrow> Inr (pushUnnamedDerivedSignal currentScopeNode st))
             else if ty P (parent currentScopeNode) = Some VariableDeclarator then
               (case getDeclaredVariables P (the (parent currentScopeNode)) of
                  functionVariable # r \<Rightarrow> pushUniqueSignal P functionVariable declScope st
                | [] \<Rightarrow> Inr (pushUnnamedDerivedSignal currentScopeNode st))
             else if ty P (parent currentScopeNode) = Some Property then Inr st
             else Inr (pushUnnamedDerivedSignal currentScopeNode st))))"

section \<open>The usage validator: what \<open>onFunctionExit\<close> does with one yielded reference\<close>

definition reportBadSignal :: "provider \<Rightarrow> node \<Rightarrow> string \<Rightarrow> state \<Rightarrow> state" where
  "reportBadSignal P identifier wh st =
     context_report identifier badSignal
       [(''name'', nameOf P (Some identifier)), (''where'', wh)] st"

definition binaryOperators :: "string list" where
  "binaryOperators = [''<'', ''<='', ''>'', ''>='', ''<<'', ''>>'', ''>>>'', ''+'', ''-'', ''*'',
     ''/'', ''%'', ''**'', ''|'', ''^'', ''&'', ''in'']"

text \<open>The body of \<open>for (const {reference, declarationScope} of
  scopeStack.consumeSignalReferencesInScope())\<close>.\<close>

definition signalBody :: "provider \<Rightarrow> reference \<Rightarrow> node \<Rightarrow> state \<Rightarrow> error + state" where
  "signalBody P reference declScope st =
     (let identifier = ident reference; par = parent identifier in
      if isWrite reference then
        Inr (context_report identifier noWrite [(''name'', nameOf P (Some identifier))] st)
      else if ty P (Some identifier) = Some Identifier then
        (if ty P par = Some CallExpression
            \<or> (ty P par = Some ArrayExpression \<and> ty P (up par) = Some CallExpression)
         then handleTrackedScopes P identifier declScope st
         else if ty P par = Some TemplateLiteral
         then Inr (reportBadSignal P identifier ''template literals'' st)
         else if ty P par = Some BinaryExpression
                 \<and> attr P operator [] par \<in> set binaryOperators
         then Inr (reportBadSignal P identifier ''arithmetic or comparisons'' st)
         else if ty P par = Some UnaryExpression
                 \<and> attr P operator [] par \<in> set [''-'', ''+'', ''~'']
         then Inr (reportBadSignal P identifier ''unary expressions'' st)
         else if ty P par = Some MemberExpression \<and> attr P computed False par
                 \<and> child P par F_property = Some identifier
         then Inr (reportBadSignal P identifier ''property accesses'' st)
         else if ty P par = Some JSXExpressionContainer then
           (case currentScope st of
              None \<Rightarrow> Inl TypeError
            | Some cur \<Rightarrow>
               if \<not> list_ex (\<lambda>trackedScope. ts_node trackedScope = Some identifier
                        \<and> (expect trackedScope = ExpectFunction
                           \<or> expect trackedScope = ExpectCalledFunction))
                      (trackedScopes cur)
               then
                 (let elementOrAttribute = up par in
                  if isJSXElementOrFragment P elementOrAttribute
                     \<or> (ty P elementOrAttribute = Some JSXAttribute
                        \<and> ty P (up elementOrAttribute) = Some JSXOpeningElement
                        \<and> ty P (child P (up elementOrAttribute) F_name) = Some JSXIdentifier
                        \<and> isDOMElementName (nameOf P (child P (up elementOrAttribute) F_name)))
                  then Inr (reportBadSignal P identifier ''JSX'' st)
                  else Inr st)
               else Inr st)
         else Inr st)
      else Inr st)"

text \<open>\<open>/^(?:initial|default|static)[A-Z]/\<close>.\<close>

definition exemptPropertyName :: "string \<Rightarrow> bool" where
  "exemptPropertyName s = prefixThenUpper [''initial'', ''default'', ''static''] s"

text \<open>The body of \<open>for (const {reference, declarationScope} of
  scopeStack.consumePropsReferencesInScope())\<close>.\<close>

definition propsBody :: "provider \<Rightarrow> reference \<Rightarrow> node \<Rightarrow> state \<Rightarrow> error + state" where
  "propsBody P reference declScope st =
     (let identifier = ident reference; par = parent identifier in
      if isWrite reference then
        Inr (context_report identifier noWrite [(''name'', nameOf P (Some identifier))] st)
      else if ty P par = Some MemberExpression \<and> child P par F_object = Some identifier then
        (if ty P (up par) = Some AssignmentExpression \<and> child P (up par) F_left = par
         then Inr (context_report identifier noWrite
                     [(''name'', nameOf P (Some identifier))] st)
         else if ty P (child P par F_property) = Some Identifier
                 \<and> exemptPropertyName (nameOf P (child P par F_property))
         then Inr st
         else handleTrackedScopes P identifier declScope st)
      else if ty P par = Some AssignmentExpression \<or> ty P par = Some VariableDeclarator
      then Inr (context_report identifier untrackedReactive
                  [(''name'', nameOf P (Some identifier))] st)
      else Inr st)"

section \<open>Draining the registry at a scope exit\<close>

text \<open>
  \<open>consumeReferencesInScope\<close> is a generator; the \<open>for ... of\<close> loops of \<open>onFunctionExit\<close>
  run their bodies between its yields, and a body can append to the very array the
  generator iterates over (\<open>pushUniqueSignal\<close> from \<open>handleTrackedScopes\<close>); an array
  iterator sees what was appended. The generator and its consumer are therefore one
  loop over the index. That loop ends because a body appends at most the variable of the
  function being exited, and only while that variable has no entry: \<open>derivedVar\<close> is that
  variable, \<open>grows\<close> what a body may change, \<open>drainMeasure\<close> the measure.
\<close>

definition derivedVar :: "provider \<Rightarrow> node list \<Rightarrow> var option" where
  "derivedVar P ns =
     (if ns = [] then None
      else if ty P (Some (last ns)) = Some FunctionDeclaration
      then (case getDeclaredVariables P (last ns) of v # r \<Rightarrow> Some v | [] \<Rightarrow> None)
      else if ty P (parent (last ns)) = Some VariableDeclarator
      then (case getDeclaredVariables P (the (parent (last ns))) of v # r \<Rightarrow> Some v | [] \<Rightarrow> None)
      else None)"

definition grows :: "provider \<Rightarrow> state \<Rightarrow> state \<Rightarrow> bool" where
  "grows P st s \<longleftrightarrow>
     map node (stack s) = map node (stack st) \<and>
     (map variable (signals s) = map variable (signals st)
      \<or> (\<exists>v. derivedVar P (map node (stack st)) = Some v
             \<and> v \<notin> set (map variable (signals st))
             \<and> map variable (signals s) = map variable (signals st) @ [v]))"

lemma grows_refl: "grows P st st"
  by (simp add: grows_def)

lemma grows_trans:
  assumes ab: "grows P a b" and bc: "grows P b c"
  shows "grows P a c"
proof -
  have nb: "map node (stack b) = map node (stack a)" using ab by (simp add: grows_def)
  have nc: "map node (stack c) = map node (stack a)" using ab bc by (simp add: grows_def)
  consider (same) "map variable (signals b) = map variable (signals a)"
    | (push) v where "derivedVar P (map node (stack a)) = Some v"
        "v \<notin> set (map variable (signals a))"
        "map variable (signals b) = map variable (signals a) @ [v]"
    using ab unfolding grows_def by blast
  then show ?thesis
  proof cases
    case same
    then show ?thesis using bc nb nc unfolding grows_def by metis
  next
    case push
    have "map variable (signals c) = map variable (signals b)"
      using bc push nb unfolding grows_def by auto
    then show ?thesis using push nc unfolding grows_def by metis
  qed
qed

lemma grows_report: "grows P st (context_report n m d st)"
  by (simp add: grows_def context_report_def)

lemma grows_yielded: "grows P (st\<lparr>yielded := y\<rparr>) s = grows P st s"
  by (simp add: grows_def)

lemma setFirst_map_variable:
  "map variable (setFirst p (\<lambda>s. s\<lparr>declarationScope := d\<rparr>) xs) = map variable xs"
  by (induction xs) auto

lemma find_None_variable:
  "find (\<lambda>s. variable s = v) xs = None \<Longrightarrow> v \<notin> set (map variable xs)"
  by (induction xs) (auto split: if_splits)

lemma pushUniqueSignal_effect:
  assumes "pushUniqueSignal P v scope st = Inr s"
  shows "stack s = stack st \<and>
     (map variable (signals s) = map variable (signals st)
      \<or> (v \<notin> set (map variable (signals st))
          \<and> map variable (signals s) = map variable (signals st) @ [v]))"
proof (cases "find (\<lambda>s. variable s = v) (signals st)")
  case None
  with assms have "s = pushSignal P v scope st" by (simp add: pushUniqueSignal_def)
  with find_None_variable [OF None] show ?thesis
    by (simp add: pushSignal_def newBinding_def)
next
  case (Some e)
  with assms show ?thesis
    by (auto simp: pushUniqueSignal_def andThen_Inr_iff setFirst_map_variable)
qed

lemma map_node_pushUnnamed:
  "map node (stack (pushUnnamedDerivedSignal c st)) = map node (stack st)"
proof -
  have "(map node xs)[k := node (xs ! k)] = map node xs" for xs :: "ScopeStackItem list" and k
    by (cases "k < length xs") (simp_all add: list_update_same_conv list_update_beyond)
  then show ?thesis by (simp add: pushUnnamedDerivedSignal_def Let_def map_update)
qed

lemma signals_pushUnnamed [simp]:
  "signals (pushUnnamedDerivedSignal c st) = signals st"
  by (simp add: pushUnnamedDerivedSignal_def Let_def)

lemma handleTrackedScopes_grows:
  assumes "handleTrackedScopes P identifier declScope st = Inr s"
  shows "grows P st s"
proof -
  obtain cur where cur: "currentScope st = Some cur"
    using assms by (cases "currentScope st") (auto simp: handleTrackedScopes_def)
  then have ne: "stack st \<noteq> []" and cl: "cur = last (stack st)"
    by (auto simp: currentScope_def split: if_splits)
  have ln: "last (map node (stack st)) = node cur" using ne cl by (simp add: last_map)
  show ?thesis
    using assms cur ne ln
    unfolding handleTrackedScopes_def Let_def
    by (auto simp: grows_def derivedVar_def context_report_def map_node_pushUnnamed
             split: if_splits list.splits dest!: pushUniqueSignal_effect)
qed

lemma signalBody_grows:
  assumes "signalBody P r d st = Inr s"
  shows "grows P st s"
  using assms unfolding signalBody_def Let_def reportBadSignal_def
  by (auto simp: grows_refl grows_report
           split: if_splits option.splits dest: handleTrackedScopes_grows)


lemma forEach_grows:
  assumes "\<And>x a b. f x a = Inr b \<Longrightarrow> grows P a b"
    and "forEach f xs st = Inr s"
  shows "grows P st s"
  using assms(2)
proof (induction xs arbitrary: st)
  case Nil
  then show ?case by (simp add: grows_refl)
next
  case (Cons x xs)
  then obtain m where "f x st = Inr m" "forEach f xs m = Inr s"
    by (auto simp: andThen_Inr_iff)
  then show ?case using assms(1) Cons.IH grows_trans by blast
qed

definition drainMeasure :: "provider \<Rightarrow> nat \<Rightarrow> state \<Rightarrow> nat" where
  "drainMeasure P i st = length (signals st) - i +
     (case derivedVar P (map node (stack st)) of
        None \<Rightarrow> 0
      | Some v \<Rightarrow> if v \<in> set (map variable (signals st)) then 0 else 1)"

lemma map_variable_setReferences:
  "map variable (xs[i := (xs ! i)\<lparr>references := rs\<rparr>]) = map variable xs"
  by (cases "i < length xs") (simp_all add: map_update list_update_same_conv list_update_beyond)

lemma drainMeasure_decreases:
  assumes i: "i < length (signals st)" and g: "grows P st s"
  shows "drainMeasure P (Suc i)
           (s\<lparr>signals := (signals s)[i := (signals s ! i)\<lparr>references := rs\<rparr>]\<rparr>)
         < drainMeasure P i st"
proof -
  have n: "map node (stack s) = map node (stack st)" using g by (simp add: grows_def)
  have len: "length (signals s) = length (map variable (signals s))" by simp
  consider (same) "map variable (signals s) = map variable (signals st)"
    | (push) v where "derivedVar P (map node (stack st)) = Some v"
        "v \<notin> set (map variable (signals st))"
        "map variable (signals s) = map variable (signals st) @ [v]"
    using g unfolding grows_def by blast
  then show ?thesis
  proof cases
    case same
    then have "length (signals s) = length (signals st)" by (metis length_map)
    with same i n show ?thesis
      by (auto simp: drainMeasure_def map_variable_setReferences split: option.splits)
  next
    case push
    then have "length (signals s) = Suc (length (signals st))"
      by (metis length_map length_append_singleton)
    with push i n show ?thesis
      by (auto simp: drainMeasure_def map_variable_setReferences)
  qed
qed

text \<open>
  The loop over \<open>this.signals\<close> for the frame being exited. For the entry at index \<open>i\<close> the
  references are partitioned first (\<open>references.forEach\<close>); each reference in scope is
  yielded with the declaration scope the entry has at that moment, and the body runs;
  then \<open>variable.references = notInScope\<close>.
\<close>

function drainSignals :: "provider \<Rightarrow> nat \<Rightarrow> state \<Rightarrow> error + state" where
  "drainSignals P i st =
     (if i < length (signals st) then
        (let variable_i = signals st ! i;
             inScope = filter (\<lambda>r. isReferenceInCurrentScope P st r = Inr True)
                         (references variable_i);
             notInScope = filter (\<lambda>r. isReferenceInCurrentScope P st r \<noteq> Inr True)
                            (references variable_i)
         in andThen
              (forEach (\<lambda>r s. signalBody P r (declarationScope variable_i)
                          (s\<lparr>yielded := yielded s
                               @ [(bid variable_i, r, declarationScope variable_i)]\<rparr>))
                 inScope st)
              (\<lambda>s. drainSignals P (Suc i)
                      (s\<lparr>signals := (signals s)[i := (signals s ! i)
                                        \<lparr>references := notInScope\<rparr>]\<rparr>)))
      else Inr st)"
  by pat_completeness auto
termination
proof (relation "measure (\<lambda>(P, i, st). drainMeasure P i st)", goal_cases)
  case 1
  show ?case by simp
next
  case (2 P i st variable_i inScope notInScope s)
  have "grows P st s"
  proof (rule forEach_grows [OF _ 2(5)])
    fix x a b
    assume "signalBody P x (declarationScope variable_i)
              (a\<lparr>yielded := yielded a @ [(bid variable_i, x, declarationScope variable_i)]\<rparr>)
            = Inr b"
    from signalBody_grows [OF this] show "grows P a b" by (simp add: grows_yielded)
  qed
  with 2(1) show ?case by (simp add: drainMeasure_decreases)
qed

text \<open>
  The loop over \<open>this.props\<close>. Its body never touches \<open>props\<close>, so the array keeps its
  length while the loop runs.
\<close>

lemma props_pushUniqueSignal:
  "pushUniqueSignal P v scope st = Inr s \<Longrightarrow> props s = props st"
  by (auto simp: pushUniqueSignal_def pushSignal_def andThen_Inr_iff split: option.splits)

lemma props_handleTrackedScopes:
  "handleTrackedScopes P identifier declScope st = Inr s \<Longrightarrow> props s = props st"
  unfolding handleTrackedScopes_def Let_def
  by (auto simp: context_report_def pushUnnamedDerivedSignal_def Let_def
           split: if_splits option.splits list.splits dest: props_pushUniqueSignal)

lemma props_propsBody:
  "propsBody P r d st = Inr s \<Longrightarrow> props s = props st"
  unfolding propsBody_def Let_def
  by (auto simp: context_report_def split: if_splits dest: props_handleTrackedScopes)

lemma props_forEach:
  assumes "\<And>x a b. f x a = Inr b \<Longrightarrow> props b = props a"
    and "forEach f xs st = Inr s"
  shows "props s = props st"
  using assms(2)
proof (induction xs arbitrary: st)
  case Nil
  then show ?case by simp
next
  case (Cons x xs)
  then obtain m where "f x st = Inr m" "forEach f xs m = Inr s"
    by (auto simp: andThen_Inr_iff)
  then show ?case using assms(1) Cons.IH by fastforce
qed

function drainProps :: "provider \<Rightarrow> nat \<Rightarrow> state \<Rightarrow> error + state" where
  "drainProps P i st =
     (if i < length (props st) then
        (let variable_i = props st ! i;
             inScope = filter (\<lambda>r. isReferenceInCurrentScope P st r = Inr True)
                         (references variable_i);
             notInScope = filter (\<lambda>r. isReferenceInCurrentScope P st r \<noteq> Inr True)
                            (references variable_i)
         in andThen
              (forEach (\<lambda>r s. propsBody P r (declarationScope variable_i)
                          (s\<lparr>yielded := yielded s
                               @ [(bid variable_i, r, declarationScope variable_i)]\<rparr>))
                 inScope st)
              (\<lambda>s. drainProps P (Suc i)
                      (s\<lparr>props := (props s)[i := (props s ! i)
                                      \<lparr>references := notInScope\<rparr>]\<rparr>)))
      else Inr st)"
  by pat_completeness auto
termination
proof (relation "measure (\<lambda>(P, i, st). length (props st) - i)", goal_cases)
  case 1
  show ?case by simp
next
  case (2 P i st variable_i inScope notInScope s)
  have "props s = props st"
  proof (rule props_forEach [OF _ 2(5)])
    fix x a b
    assume "propsBody P x (declarationScope variable_i)
              (a\<lparr>yielded := yielded a @ [(bid variable_i, x, declarationScope variable_i)]\<rparr>)
            = Inr b"
    from props_propsBody [OF this] show "props b = props a" by simp
  qed
  with 2(1) show ?case by simp
qed

text \<open>After the generator is exhausted, the entries left without references are dropped.\<close>

definition consumeSignalReferencesInScope :: "provider \<Rightarrow> state \<Rightarrow> error + state" where
  "consumeSignalReferencesInScope P st =
     andThen (drainSignals P 0 st)
       (\<lambda>s. Inr (s\<lparr>signals := filter (\<lambda>v. references v \<noteq> []) (signals s)\<rparr>))"

definition consumePropsReferencesInScope :: "provider \<Rightarrow> state \<Rightarrow> error + state" where
  "consumePropsReferencesInScope P st =
     andThen (drainProps P 0 st)
       (\<lambda>s. Inr (s\<lparr>props := filter (\<lambda>v. references v \<noteq> []) (props s)\<rparr>))"

section \<open>\<open>onFunctionExit\<close>\<close>

text \<open>
  With an empty stack every path through the rest of \<open>onFunctionExit\<close> ends in the same
  \<open>TypeError\<close>: at the first reference tested by \<open>isReferenceInCurrentScope\<close>, or at the
  latest at \<open>const { unnamedDerivedSignals } = currentScope()\<close>; nothing is reported before.
  The model raises it where the draining starts.
\<close>

definition exitPropsCondition :: "provider \<Rightarrow> node \<Rightarrow> state \<Rightarrow> node \<Rightarrow> error + bool" where
  "exitPropsCondition P currentScopeNode st param =
     (if \<not> isPropsByName (nameOf P (Some param)) then
        (case currentScope st of
           None \<Rightarrow> Inl TypeError
         | Some cur \<Rightarrow>
             if hasJSX cur then
               (case getFunctionName P currentScopeNode of
                  None \<Rightarrow> Inr False
                | Some functionName \<Rightarrow>
                    Inr (functionName \<noteq> [] \<and> \<not> isDOMElementName functionName))
             else Inr False)
      else Inr False)"

definition reportUnnamedDerivedSignals :: "state \<Rightarrow> state" where
  "reportUnnamedDerivedSignals st =
     (let cur = last (stack st) in
      fold (\<lambda>n s. if \<not> list_ex (\<lambda>trackedScope. matchTrackedScope (node cur) trackedScope n)
                          (trackedScopes cur)
                   then context_report n badUnnamedDerivedSignal [] s else s)
        (unnamedDerivedSignals cur) st)"

definition onFunctionExit :: "provider \<Rightarrow> node \<Rightarrow> state \<Rightarrow> error + state" where
  "onFunctionExit P currentScopeNode st =
     andThen
       (if isFunctionNode P (Some currentScopeNode)
        then markPropsOnCondition P currentScopeNode currentScopeNode
               (exitPropsCondition P currentScopeNode st) st
        else Inr st)
       (\<lambda>s1.
          if isFunctionNode P (Some currentScopeNode)
             \<and> currentScopeNode \<in> set (syncCallbacks s1)
          then Inr s1
          else if stack s1 = [] then Inl TypeError
          else andThen (consumeSignalReferencesInScope P s1)
                 (\<lambda>s2. andThen (consumePropsReferencesInScope P s2)
                    (\<lambda>s3. let s4 = reportUnnamedDerivedSignals s3
                          in Inr (s4\<lparr>stack := butlast (stack s4)\<rparr>))))"

section \<open>Synchronous callbacks and reactive assignments\<close>

definition getNthDestructuredVar :: "provider \<Rightarrow> node \<Rightarrow> node option \<Rightarrow> nat \<Rightarrow> var option" where
  "getNthDestructuredVar P scope ident_node n =
     (if ty P ident_node = Some ArrayPattern then
        (let el = at_index (children P (the ident_node) F_elements) n in
         if ty P el = Some Identifier then findVariableName P scope (nameOf P el) else None)
      else None)"

definition getReturnedVar :: "provider \<Rightarrow> node \<Rightarrow> node option \<Rightarrow> var option" where
  "getReturnedVar P scope ident_node =
     (if ty P ident_node = Some Identifier
      then findVariableName P scope (nameOf P ident_node) else None)"

definition addSyncCallback :: "node \<Rightarrow> state \<Rightarrow> state" where
  "addSyncCallback n st = st\<lparr>syncCallbacks := setAdd n (syncCallbacks st)\<rparr>"

definition arrayMethods :: "string list" where
  "arrayMethods = [''forEach'', ''map'', ''flatMap'', ''reduce'', ''reduceRight'', ''find'',
     ''findIndex'', ''filter'', ''every'', ''some'']"

definition checkForSyncCallbacks :: "provider \<Rightarrow> node \<Rightarrow> state \<Rightarrow> state" where
  "checkForSyncCallbacks P n st =
     (let args = children P n F_arguments;
          callee = child P (Some n) F_callee;
          arg0 = at_index args 0;
          s1 = (if length args = 1 \<and> isFunctionNode P arg0 \<and> \<not> attr P async False arg0 then
                  (if ty P callee = Some Identifier
                      \<and> matchImport st [''batch'', ''produce''] (nameOf P callee)
                   then addSyncCallback (the arg0) st
                   else if ty P callee = Some MemberExpression
                      \<and> \<not> attr P computed False callee
                      \<and> ty P (child P callee F_object) \<noteq> Some ObjectExpression
                      \<and> nameOf P (child P callee F_property) \<in> set arrayMethods
                   then addSyncCallback (the arg0) st
                   else st)
                else st);
          s2 = (if ty P callee = Some Identifier then
                  (if matchImport s1 [''createSignal'', ''createStore''] (nameOf P callee)
                      \<and> ty P (parent n) = Some VariableDeclarator
                   then
                     (case getNthDestructuredVar P n (child P (parent n) F_id) 1 of
                        None \<Rightarrow> s1
                      | Some setter \<Rightarrow>
                          fold (\<lambda>reference s.
                                  if \<not> init reference \<and> isRead reference
                                     \<and> ty P (parent (ident reference)) = Some CallExpression
                                  then fold (\<lambda>arg s'.
                                               if isFunctionNode P arg \<and> \<not> attr P async False arg
                                               then addSyncCallback (the arg) s' else s')
                                         (children P (the (parent (ident reference))) F_arguments) s
                                  else s)
                            (v_references (variables P setter)) s1)
                   else if matchImport s1 [''mapArray'', ''indexArray''] (nameOf P callee)
                   then (if isFunctionNode P (at_index args 1)
                         then addSyncCallback (the (at_index args 1)) s1 else s1)
                   else s1)
                else s1)
      in if isFunctionNode P callee then addSyncCallback (the callee) s2 else s2)"

text \<open>Every registration reads \<open>currentScope().node\<close> first.\<close>

definition withCurrentScopeNode :: "state \<Rightarrow> (node \<Rightarrow> state) \<Rightarrow> error + state" where
  "withCurrentScopeNode st f =
     (case currentScope st of None \<Rightarrow> Inl TypeError | Some cur \<Rightarrow> Inr (f (node cur)))"

definition warnShouldDestructure :: "node \<Rightarrow> string option \<Rightarrow> state \<Rightarrow> state" where
  "warnShouldDestructure n nth_opt st =
     context_report n shouldDestructure
       (case nth_opt of None \<Rightarrow> [] | Some s \<Rightarrow> [(''nth'', s @ '' '')]) st"

definition warnShouldAssign :: "node \<Rightarrow> state \<Rightarrow> state" where
  "warnShouldAssign n st = context_report n shouldAssign [] st"

definition checkForReactiveAssignment ::
    "provider \<Rightarrow> node \<Rightarrow> node option \<Rightarrow> node \<Rightarrow> state \<Rightarrow> error + state" where
  "checkForReactiveAssignment P scope ident_node init_node st =
     (let init' = ignoreTransparentWrappers P init_node;
          callee = child P (Some init') F_callee;
          cname = nameOf P callee;
          idOrInit = (case ident_node of None \<Rightarrow> init' | Some i \<Rightarrow> i);
          args = children P init' F_arguments
      in
      if ty P (Some init') = Some CallExpression \<and> ty P callee = Some Identifier then
        (if matchImport st [''createSignal'', ''useTransition''] cname then
           (case getNthDestructuredVar P scope ident_node 0 of
              Some signal \<Rightarrow> withCurrentScopeNode st (\<lambda>c. pushSignal P signal c st)
            | None \<Rightarrow> Inr (warnShouldDestructure idOrInit (Some ''first'') st))
         else if matchImport st [''createMemo'', ''createSelector''] cname then
           (case getReturnedVar P scope ident_node of
              Some memo \<Rightarrow> withCurrentScopeNode st (\<lambda>c. pushSignal P memo c st)
            | None \<Rightarrow> Inr (warnShouldAssign idOrInit st))
         else if matchImport st [''createStore''] cname then
           (case getNthDestructuredVar P scope ident_node 0 of
              Some store \<Rightarrow> withCurrentScopeNode st (\<lambda>c. pushProps P store c st)
            | None \<Rightarrow> Inr (warnShouldDestructure idOrInit (Some ''first'') st))
         else if matchImport st [''mergeProps''] cname then
           (case getReturnedVar P scope ident_node of
              Some merged \<Rightarrow> withCurrentScopeNode st (\<lambda>c. pushProps P merged c st)
            | None \<Rightarrow> Inr (warnShouldAssign idOrInit st))
         else if matchImport st [''splitProps''] cname then
           (if ty P ident_node = Some ArrayPattern then
              (let vars = List.map_filter
                     (\<lambda>i. getNthDestructuredVar P scope ident_node i)
                     [0 ..< length (children P (the ident_node) F_elements)]
               in if vars = [] then Inr (warnShouldDestructure (the ident_node) None st)
                  else forEach (\<lambda>v s. withCurrentScopeNode s (\<lambda>c. pushProps P v c s)) vars st)
            else
              (case getReturnedVar P scope ident_node of
                 Some vars \<Rightarrow> withCurrentScopeNode st (\<lambda>c. pushProps P vars c st)
               | None \<Rightarrow> Inr st))
         else if matchImport st [''createResource''] cname then
           (case getNthDestructuredVar P scope ident_node 0 of
              Some resourceReturn \<Rightarrow> withCurrentScopeNode st (\<lambda>c. pushProps P resourceReturn c st)
            | None \<Rightarrow> Inr st)
         else if matchImport st [''createMutable''] cname then
           (case getReturnedVar P scope ident_node of
              Some mutable \<Rightarrow> withCurrentScopeNode st (\<lambda>c. pushProps P mutable c st)
            | None \<Rightarrow> Inr st)
         else if matchImport st [''mapArray''] cname then
           (let arg1 = at_index args 1 in
            if isFunctionNode P arg1 \<and> 2 \<le> length (children P (the arg1) F_params)
               \<and> ty P (at_index (children P (the arg1) F_params) 1) = Some Identifier
            then (case findVariableNode P scope (the (at_index (children P (the arg1) F_params) 1)) of
                    Some indexSignal \<Rightarrow> withCurrentScopeNode st (\<lambda>c. pushSignal P indexSignal c st)
                  | None \<Rightarrow> Inr st)
            else Inr st)
         else if matchImport st [''indexArray''] cname then
           (let arg1 = at_index args 1 in
            if isFunctionNode P arg1 \<and> 1 \<le> length (children P (the arg1) F_params)
               \<and> ty P (at_index (children P (the arg1) F_params) 0) = Some Identifier
            then (case findVariableNode P scope (the (at_index (children P (the arg1) F_params) 0)) of
                    Some valueSignal \<Rightarrow> withCurrentScopeNode st (\<lambda>c. pushSignal P valueSignal c st)
                  | None \<Rightarrow> Inr st)
            else Inr st)
         else Inr st)
      else Inr st)"

section \<open>The tracked-scope classifier (\<open>checkForTrackedScopes\<close>)\<close>

definition updateCurrent :: "(ScopeStackItem \<Rightarrow> ScopeStackItem) \<Rightarrow> state \<Rightarrow> state" where
  "updateCurrent f st =
     st\<lparr>stack := (stack st)[length (stack st) - 1 := f (last (stack st))]\<rparr>"

definition pushTrackedScope :: "provider \<Rightarrow> node option \<Rightarrow> expect \<Rightarrow> state \<Rightarrow> error + state" where
  "pushTrackedScope P node2 ex st =
     (case currentScope st of
        None \<Rightarrow> Inl TypeError
      | Some cur \<Rightarrow>
          (let s = updateCurrent
                     (\<lambda>c. c\<lparr>trackedScopes := trackedScopes c @ [\<lparr>ts_node = node2, expect = ex\<rparr>]\<rparr>) st
           in if ex \<noteq> ExpectCalledFunction \<and> isFunctionNode P node2 \<and> attr P async False node2
              then Inr (context_report (the node2) noAsyncTrackedScope [] s)
              else Inr s))"

text \<open>
  \<open>trace(node, initialScope)\<close> follows \<open>const\<close> initialisers and calls itself; \<open>k\<close> is the
  depth of recursion left.
\<close>

fun trace :: "provider \<Rightarrow> node \<Rightarrow> nat \<Rightarrow> node \<Rightarrow> error + node" where
  "trace P scope 0 n = Inl RangeError"
| "trace P scope (Suc k) n =
     (if ty P (Some n) = Some Identifier then
        (case findVariableNode P scope n of
           None \<Rightarrow> Inr n
         | Some v \<Rightarrow>
            (case v_defs (variables P v) of
               [] \<Rightarrow> Inr n
             | d # r \<Rightarrow>
                (case def_type d of
                   FunctionName \<Rightarrow> Inr (def_node d)
                 | ClassName \<Rightarrow> Inr (def_node d)
                 | ImportBinding \<Rightarrow> Inr (def_node d)
                 | Variable \<Rightarrow>
                     (if (attr P kind [] (parent (def_node d)) = ''const''
                          \<or> list_all (\<lambda>r. init r \<or> isReadOnly r) (v_references (variables P v)))
                         \<and> ty P (child P (Some (def_node d)) F_id) = Some Identifier
                         \<and> child P (Some (def_node d)) F_init \<noteq> None
                      then trace P scope k (the (child P (Some (def_node d)) F_init))
                      else Inr n)
                 | Parameter \<Rightarrow> Inr n
                 | OtherDef \<Rightarrow> Inr n)))
      else Inr n)"

text \<open>
  \<open>permissivelyTrackNode\<close> hands the node to \<open>traverse\<close> of the library \<open>estraverse\<close> with an
  \<open>enter\<close> callback. The library visits the subtree in pre-order: it calls \<open>enter\<close> on a
  node; when the callback has called \<open>this.skip()\<close> it leaves the node's children alone;
  otherwise it looks up the node's type in its table of keys, throws
  \<open>Unknown node type\<close> when the table has no entry (no \<open>fallback\<close> is passed), and visits
  the children under these keys, key by key in the order of the table and element by
  element within an array; a child that is \<open>null\<close> or missing is passed over. Children under
  other fields (\<open>parent\<close>, type annotations) are never visited.
\<close>

definition candidates :: "node_info \<Rightarrow> field list \<Rightarrow> nat option list" where
  "candidates i keys =
     concat (map (\<lambda>key. case map_of (links i) key of None \<Rightarrow> [] | Some cs \<Rightarrow> cs) keys)"

definition permissiveMatch :: "provider \<Rightarrow> node \<Rightarrow> bool" where
  "permissiveMatch P traced =
     (isFunctionNode P (Some traced)
      \<or> (ty P (Some traced) = Some Identifier
          \<and> ty P (parent traced) \<noteq> Some MemberExpression
          \<and> \<not> (ty P (parent traced) = Some CallExpression
                \<and> child P (parent traced) F_callee = Some traced)))"

function traverseTrack :: "provider \<Rightarrow> node \<Rightarrow> ast \<Rightarrow> node \<Rightarrow> state \<Rightarrow> error + state"
  and traverseKids ::
    "provider \<Rightarrow> node \<Rightarrow> ast list \<Rightarrow> nat option list \<Rightarrow> node \<Rightarrow> state \<Rightarrow> error + state" where
  "traverseTrack P scope (Node i ks) childNode st =
     andThen (trace P scope (callDepth P) childNode)
       (\<lambda>traced.
          if permissiveMatch P traced
          then pushTrackedScope P (Some childNode) ExpectCalledFunction st
          else (case visitorKeys P (ntype i) of
                  None \<Rightarrow> Inl UnknownNodeType
                | Some keys \<Rightarrow> traverseKids P scope ks (candidates i keys) childNode st))"
| "traverseKids P scope ks [] n st = Inr st"
| "traverseKids P scope ks (c # cs) n st =
     (case c of
        None \<Rightarrow> traverseKids P scope ks cs n st
      | Some k \<Rightarrow>
          if k < length ks
          then andThen (traverseTrack P scope (ks ! k) (k # n) st) (traverseKids P scope ks cs n)
          else traverseKids P scope ks cs n st)"
  by pat_completeness auto
termination
  by (relation "inv_image (less_than <*lex*> less_than)
        (\<lambda>x. case x of
           Inl (P, scope, t, n, st) \<Rightarrow> (2 * size t, 0)
         | Inr (P, scope, ks, cs, n, st) \<Rightarrow> (Suc (2 * size_list size ks), length cs))")
     (auto dest: size_nth_kid)

definition permissivelyTrackNode :: "provider \<Rightarrow> node \<Rightarrow> node \<Rightarrow> state \<Rightarrow> error + state" where
  "permissivelyTrackNode P scope n st =
     (case subtree (root P) (rev n) of
        None \<Rightarrow> Inr st
      | Some t \<Rightarrow> traverseTrack P scope t n st)"

definition isReactiveFunctionName :: "provider \<Rightarrow> string \<Rightarrow> bool" where
  "isReactiveFunctionName P s =
     (prefixThenUpper [''use'', ''create''] s \<or> s \<in> set (customReactiveFunctions P))"

definition trackedJSXExpressionContainer :: "provider \<Rightarrow> node \<Rightarrow> state \<Rightarrow> error + state" where
  "trackedJSXExpressionContainer P n st =
     (let par = parent n;
          expr = child P (Some n) F_expression;
          attrName = child P par F_name;
          elementName = child P (up par) F_name
      in
      if ty P par = Some JSXAttribute
         \<and> (let t = getText P (the attrName)
            in startsWith ''on'' t \<and> 2 < length t \<and> (t ! 2 = CHR '':'' \<or> is_upper (t ! 2)))
         \<and> ty P (up par) = Some JSXOpeningElement
         \<and> ty P elementName = Some JSXIdentifier
         \<and> isDOMElementName (nameOf P elementName)
      then pushTrackedScope P expr ExpectCalledFunction st
      else if ty P par = Some JSXAttribute
         \<and> ty P attrName = Some JSXNamespacedName
         \<and> nameOf P (child P attrName F_namespace) = ''use''
         \<and> isFunctionNode P expr
      then pushTrackedScope P expr ExpectCalledFunction st
      else if ty P par = Some JSXAttribute
         \<and> nameOf P attrName = ''value''
         \<and> ty P (up par) = Some JSXOpeningElement
         \<and> ((ty P elementName = Some JSXIdentifier \<and> endsWith ''Provider'' (nameOf P elementName))
            \<or> (ty P elementName = Some JSXMemberExpression
               \<and> nameOf P (child P elementName F_property) = ''Provider''))
      then Inr st
      else if ty P par = Some JSXAttribute
         \<and> ty P attrName = Some JSXIdentifier
         \<and> prefixThenUpper [''static''] (nameOf P attrName)
         \<and> ty P (up par) = Some JSXOpeningElement
         \<and> ty P elementName = Some JSXIdentifier
         \<and> \<not> isDOMElementName (nameOf P elementName)
      then Inr st
      else if ty P par = Some JSXAttribute \<and> nameOf P attrName = ''ref'' \<and> isFunctionNode P expr
      then pushTrackedScope P expr ExpectCalledFunction st
      else if isJSXElementOrFragment P par \<and> isFunctionNode P expr
      then pushTrackedScope P expr ExpectFunction st
      else pushTrackedScope P expr ExpectExpression st)"

text \<open>
  \<open>runWithOwner(owner, fn)\<close>: whether the second argument counts as a tracked scope.
  \<open>findIndex\<close> returns the first index, or \<open>-1\<close> (\<open>None\<close>).
\<close>

definition findIndex :: "('a \<Rightarrow> bool) \<Rightarrow> 'a list \<Rightarrow> nat option" where
  "findIndex p xs = (if list_ex p xs then Some (length (takeWhile (\<lambda>x. \<not> p x) xs)) else None)"

definition ownerIsTracked :: "provider \<Rightarrow> node \<Rightarrow> node option \<Rightarrow> state \<Rightarrow> bool" where
  "ownerIsTracked P scope arg0 st =
     (case (if ty P arg0 = Some Identifier then findVariableNode P scope (the arg0) else None) of
        None \<Rightarrow> True
      | Some owner \<Rightarrow>
         (case v_defs (variables P owner) of
            [] \<Rightarrow> True
          | decl # r \<Rightarrow>
             (let dn = def_node decl; ini = child P (Some dn) F_init in
              if ty P (Some dn) = Some VariableDeclarator
                 \<and> ty P ini = Some CallExpression
                 \<and> ty P (child P ini F_callee) = Some Identifier
                 \<and> matchImport st [''getOwner''] (nameOf P (child P ini F_callee))
              then
                (let ownerFunction = findParent (\<lambda>m. isProgramOrFunctionNode P (Some m)) dn;
                     scopeStackIndex = findIndex (\<lambda>f. ownerFunction = Some (node f)) (stack st)
                 in case scopeStackIndex of
                      None \<Rightarrow> True
                    | Some k \<Rightarrow>
                        \<not> ((1 \<le> k \<and> \<not> list_ex (\<lambda>trackedScope.
                                          expect trackedScope = ExpectFunction
                                          \<and> ts_node trackedScope = ownerFunction)
                                        (trackedScopes (stack st ! (k - 1))))
                           \<or> k = 0))
              else True)))"

definition observers :: "string list" where
  "observers = [''IntersectionObserver'', ''MutationObserver'', ''PerformanceObserver'',
     ''ReportingObserver'', ''ResizeObserver'']"

definition trackedPrimitives :: "string list" where
  "trackedPrimitives = [''createMemo'', ''children'', ''createEffect'', ''createRenderEffect'',
     ''createDeferred'', ''createComputed'', ''createSelector'', ''untrack'', ''mapArray'',
     ''indexArray'', ''observable'']"

definition timers :: "string list" where
  "timers = [''setInterval'', ''setTimeout'', ''setImmediate'', ''requestAnimationFrame'',
     ''requestIdleCallback'']"

definition trackedCallExpression :: "provider \<Rightarrow> node \<Rightarrow> state \<Rightarrow> error + state" where
  "trackedCallExpression P n st =
     (let callee = child P (Some n) F_callee;
          cname = nameOf P callee;
          args = children P n F_arguments;
          arg0 = at_index args 0;
          arg1 = at_index args 1
      in
      if ty P callee = Some Identifier then
        (if matchImport st trackedPrimitives cname
            \<or> (matchImport st [''createResource''] cname \<and> 2 \<le> length args)
         then pushTrackedScope P arg0 ExpectFunction st
         else if matchImport st [''onMount'', ''onCleanup'', ''onError''] cname
            \<or> cname \<in> set timers
         then pushTrackedScope P arg0 ExpectCalledFunction st
         else if matchImport st [''on''] cname then
           andThen
             (if arg0 \<noteq> None then
                (if ty P arg0 = Some ArrayExpression then
                   forEach (\<lambda>element s.
                              if element \<noteq> None \<and> ty P element \<noteq> Some SpreadElement
                              then pushTrackedScope P element ExpectFunction s else Inr s)
                     (children P (the arg0) F_elements) st
                 else pushTrackedScope P arg0 ExpectFunction st)
              else Inr st)
             (\<lambda>s. if arg1 \<noteq> None then pushTrackedScope P arg1 ExpectCalledFunction s else Inr s)
         else if matchImport st [''createStore''] cname \<and> ty P arg0 = Some ObjectExpression then
           forEach (\<lambda>property s.
                      if ty P property = Some Property \<and> attr P kind [] property = ''get''
                         \<and> isFunctionNode P (child P property F_value)
                      then pushTrackedScope P (child P property F_value) ExpectFunction s
                      else Inr s)
             (children P (the arg0) F_properties) st
         else if matchImport st [''runWithOwner''] cname then
           (if arg1 \<noteq> None then
              (if ownerIsTracked P n arg0 st then pushTrackedScope P arg1 ExpectFunction st
               else Inr st)
            else Inr st)
         else if isReactiveFunctionName P cname then
           forEach (\<lambda>arg s. permissivelyTrackNode P n (the arg) s) args st
         else Inr st)
      else if ty P callee = Some MemberExpression then
        (let property = child P callee F_property in
         if ty P property = Some Identifier \<and> nameOf P property = ''addEventListener''
            \<and> 2 \<le> length args
         then pushTrackedScope P arg1 ExpectCalledFunction st
         else if ty P property = Some Identifier \<and> isReactiveFunctionName P (nameOf P property)
         then forEach (\<lambda>arg s. permissivelyTrackNode P n (the arg) s) args st
         else Inr st)
      else Inr st)"

definition trackedVariableDeclarator :: "provider \<Rightarrow> node \<Rightarrow> state \<Rightarrow> error + state" where
  "trackedVariableDeclarator P n st =
     (let ini = child P (Some n) F_init; callee = child P ini F_callee in
      if ty P ini = Some CallExpression \<and> ty P callee = Some Identifier
         \<and> matchImport st [''createReactive'', ''createReaction''] (nameOf P callee)
      then
        andThen
          (case getReturnedVar P n (child P (Some n) F_id) of
             None \<Rightarrow> Inr st
           | Some track \<Rightarrow>
               forEach (\<lambda>reference s.
                          if \<not> init reference \<and> isReadOnly reference
                             \<and> ty P (parent (ident reference)) = Some CallExpression
                             \<and> child P (parent (ident reference)) F_callee = Some (ident reference)
                          then
                            (let arg0 = at_index
                                   (children P (the (parent (ident reference))) F_arguments) 0
                             in if arg0 \<noteq> None then pushTrackedScope P arg0 ExpectFunction s
                                else Inr s)
                          else Inr s)
                 (v_references (variables P track)) st)
          (\<lambda>s. let a0 = at_index (children P (the ini) F_arguments) 0 in
                if isFunctionNode P a0 then pushTrackedScope P a0 ExpectCalledFunction s
                else Inr s)
      else Inr st)"

definition trackedAssignmentExpression :: "provider \<Rightarrow> node \<Rightarrow> state \<Rightarrow> error + state" where
  "trackedAssignmentExpression P n st =
     (let lhs = child P (Some n) F_left; rhs = child P (Some n) F_right;
          property = child P lhs F_property
      in
      if ty P lhs = Some MemberExpression \<and> ty P property = Some Identifier
         \<and> isFunctionNode P rhs
         \<and> (let s = nameOf P property
            in startsWith ''on'' s \<and> 2 < length s \<and> list_all is_lower (drop 2 s))
      then pushTrackedScope P rhs ExpectCalledFunction st
      else Inr st)"

definition trackedTaggedTemplateExpression :: "provider \<Rightarrow> node \<Rightarrow> state \<Rightarrow> error + state" where
  "trackedTaggedTemplateExpression P n st =
     forEach (\<lambda>expression s.
                if isFunctionNode P expression then
                  andThen (pushTrackedScope P expression ExpectCalledFunction s)
                    (forEach (\<lambda>param s'.
                                if ty P param = Some Identifier
                                   \<and> isPropsByName (nameOf P param)
                                then (case findVariableNode P n (the param) of
                                        None \<Rightarrow> Inr s'
                                      | Some v \<Rightarrow>
                                          withCurrentScopeNode s' (\<lambda>c. pushProps P v c s'))
                                else Inr s')
                       (children P (the expression) F_params))
                else Inr s)
       (case child P (Some n) F_quasi of
          None \<Rightarrow> []
        | Some q \<Rightarrow> children P q F_expressions) st"

definition checkForTrackedScopes :: "provider \<Rightarrow> node \<Rightarrow> state \<Rightarrow> error + state" where
  "checkForTrackedScopes P n st =
     (case ty P (Some n) of
        Some JSXExpressionContainer \<Rightarrow> trackedJSXExpressionContainer P n st
      | Some JSXSpreadAttribute \<Rightarrow>
          pushTrackedScope P (child P (Some n) F_argument) ExpectExpression st
      | Some NewExpression \<Rightarrow>
          (let callee = child P (Some n) F_callee;
               arg0 = at_index (children P n F_arguments) 0
           in if ty P callee = Some Identifier \<and> arg0 \<noteq> None
                 \<and> nameOf P callee \<in> set observers
              then pushTrackedScope P arg0 ExpectCalledFunction st
              else Inr st)
      | Some CallExpression \<Rightarrow> trackedCallExpression P n st
      | Some VariableDeclarator \<Rightarrow> trackedVariableDeclarator P n st
      | Some AssignmentExpression \<Rightarrow> trackedAssignmentExpression P n st
      | Some TaggedTemplateExpression \<Rightarrow> trackedTaggedTemplateExpression P n st
      | _ \<Rightarrow> Inr st)"

section \<open>The handlers \<open>create\<close> returns, and a run of the rule\<close>

text \<open>The handler of the selector \<open>JSXElement > JSXExpressionContainer > :function\<close>.\<close>

definition jsxCallbackFunction :: "provider \<Rightarrow> node \<Rightarrow> state \<Rightarrow> error + state" where
  "jsxCallbackFunction P n st =
     (if isFunctionNode P (Some n) \<and> ty P (parent n) = Some JSXExpressionContainer
         \<and> ty P (up (parent n)) = Some JSXElement
      then
        (let element = up (parent n);
             tag = child P (child P element F_openingElement) F_name;
             params = children P n F_params
         in
         if ty P tag = Some JSXIdentifier then
           (if matchImport st [''For''] (nameOf P tag) \<and> length params = 2
               \<and> ty P (at_index params 1) = Some Identifier
            then (case findVariableNode P n (the (at_index params 1)) of
                    None \<Rightarrow> Inr st
                  | Some index \<Rightarrow> withCurrentScopeNode st (\<lambda>c. pushSignal P index c st))
            else if matchImport st [''Index''] (nameOf P tag) \<and> 1 \<le> length params
               \<and> ty P (at_index params 0) = Some Identifier
            then (case findVariableNode P n (the (at_index params 0)) of
                    None \<Rightarrow> Inr st
                  | Some item \<Rightarrow> withCurrentScopeNode st (\<lambda>c. pushSignal P item c st))
            else Inr st)
         else Inr st)
      else Inr st)"

definition markJSX :: "state \<Rightarrow> state" where
  "markJSX st = (if stack st \<noteq> [] then updateCurrent (\<lambda>c. c\<lparr>hasJSX := True\<rparr>) st else st)"

text \<open>
  The linter calls the handlers of a node when it enters it and the \<open>:exit\<close> handlers
  when it leaves it: the handlers \<open>CallExpression\<close>, \<open>VariableDeclarator\<close> and
  \<open>AssignmentExpression\<close> of the object \<open>create\<close> returns, and for a function
  \<open>onFunctionEnter\<close> and the handler of the JSX selector. Of two selectors that match the
  same node the less specific runs first, so \<open>onFunctionEnter\<close> runs before the handler
  of the JSX selector.
\<close>

datatype event = Enter node | Exit node

definition onCallExpression :: "provider \<Rightarrow> node \<Rightarrow> state \<Rightarrow> error + state" where
  "onCallExpression P n st =
     andThen (checkForTrackedScopes P n st)
       (\<lambda>s. let s' = checkForSyncCallbacks P n s;
                 par = (case parent n of None \<Rightarrow> None
                        | Some p \<Rightarrow> Some (ignoreTransparentWrappersUp P p))
             in if ty P par \<noteq> Some AssignmentExpression
                   \<and> ty P par \<noteq> Some VariableDeclarator
                then checkForReactiveAssignment P n None n s'
                else Inr s')"

definition onVariableDeclarator :: "provider \<Rightarrow> node \<Rightarrow> state \<Rightarrow> error + state" where
  "onVariableDeclarator P n st =
     (case child P (Some n) F_init of
        None \<Rightarrow> Inr st
      | Some ini \<Rightarrow>
          andThen (checkForReactiveAssignment P n (child P (Some n) F_id) ini st)
            (checkForTrackedScopes P n))"

definition onAssignmentExpression :: "provider \<Rightarrow> node \<Rightarrow> state \<Rightarrow> error + state" where
  "onAssignmentExpression P n st =
     andThen
       (if ty P (child P (Some n) F_left) \<noteq> Some MemberExpression
        then checkForReactiveAssignment P n (child P (Some n) F_left)
               (the (child P (Some n) F_right)) st
        else Inr st)
       (checkForTrackedScopes P n)"

definition onFunction :: "provider \<Rightarrow> node \<Rightarrow> state \<Rightarrow> error + state" where
  "onFunction P n st = andThen (onFunctionEnter P n st) (jsxCallbackFunction P n)"

definition onEnter :: "provider \<Rightarrow> node \<Rightarrow> state \<Rightarrow> error + state" where
  "onEnter P n st =
     (case ty P (Some n) of
        Some ImportDeclaration \<Rightarrow> Inr (handleImportDeclaration P n st)
      | Some JSXExpressionContainer \<Rightarrow> checkForTrackedScopes P n st
      | Some JSXSpreadAttribute \<Rightarrow> checkForTrackedScopes P n st
      | Some CallExpression \<Rightarrow> onCallExpression P n st
      | Some NewExpression \<Rightarrow> checkForTrackedScopes P n st
      | Some VariableDeclarator \<Rightarrow> onVariableDeclarator P n st
      | Some AssignmentExpression \<Rightarrow> onAssignmentExpression P n st
      | Some TaggedTemplateExpression \<Rightarrow> checkForTrackedScopes P n st
      | Some FunctionExpression \<Rightarrow> onFunction P n st
      | Some ArrowFunctionExpression \<Rightarrow> onFunction P n st
      | Some FunctionDeclaration \<Rightarrow> onFunction P n st
      | Some Program \<Rightarrow> onFunctionEnter P n st
      | Some JSXElement \<Rightarrow> Inr (markJSX st)
      | Some JSXFragment \<Rightarrow> Inr (markJSX st)
      | _ \<Rightarrow> Inr st)"

definition onExit :: "provider \<Rightarrow> node \<Rightarrow> state \<Rightarrow> error + state" where
  "onExit P n st =
     (if isProgramOrFunctionNode P (Some n) then onFunctionExit P n st else Inr st)"

fun step :: "provider \<Rightarrow> event \<Rightarrow> state \<Rightarrow> error + state" where
  "step P (Enter n) st = onEnter P n st"
| "step P (Exit n) st = onExit P n st"

definition run :: "provider \<Rightarrow> event list \<Rightarrow> state \<Rightarrow> error + state" where
  "run P evs st = forEach (step P) evs st"

text \<open>The walk of the linter over the tree: a node is entered, its children are walked
  in order, the node is left.\<close>

fun walk :: "ast \<Rightarrow> node \<Rightarrow> event list"
  and walkKids :: "ast list \<Rightarrow> nat \<Rightarrow> node \<Rightarrow> event list" where
  "walk (Node i ks) n = Enter n # walkKids ks 0 n @ [Exit n]"
| "walkKids [] k n = []"
| "walkKids (t # ts) k n = walk t (k # n) @ walkKids ts (Suc k) n"

text \<open>One run of the rule over a file: \<open>create\<close>, the walk, and the reports it made. An
  error aborts the run.\<close>

definition lint :: "provider \<Rightarrow> error + report list" where
  "lint P = andThen (run P (walk (root P) []) create) (\<lambda>s. Inr (reports s))"

section \<open>Programs the theorems are evaluated on\<close>

text \<open>
  Builders for syntax trees, and a host for a tree with a flat scope: every name resolves
  through one table, whatever the scope asked from.
\<close>

definition mk :: "node_type \<Rightarrow> (field \<times> nat option list) list \<Rightarrow> node_info" where
  "mk t ls = \<lparr>ntype = t, name = [], operator = [], async = False, computed = False,
     kind = [], strValue = [], links = ls\<rparr>"

definition range :: "nat \<Rightarrow> nat \<Rightarrow> nat option list" where
  "range a n = map Some [a ..< a + n]"

definition identifierNode :: "string \<Rightarrow> ast" where
  "identifierNode s = Node ((mk Identifier [])\<lparr>name := s\<rparr>) []"

definition literalNode :: ast where
  "literalNode = Node (mk Literal []) []"

definition callNode :: "ast \<Rightarrow> ast list \<Rightarrow> ast" where
  "callNode c args =
     Node (mk CallExpression [(F_callee, [Some 0]), (F_arguments, range 1 (length args))]) (c # args)"

definition memberNode :: "ast \<Rightarrow> ast \<Rightarrow> ast" where
  "memberNode ob pr = Node (mk MemberExpression [(F_object, [Some 0]), (F_property, [Some 1])]) [ob, pr]"

definition arrowNode :: "ast list \<Rightarrow> ast \<Rightarrow> ast" where
  "arrowNode ps b =
     Node (mk ArrowFunctionExpression
             [(F_params, range 0 (length ps)), (F_body, [Some (length ps)])]) (ps @ [b])"

definition expressionStatement :: "ast \<Rightarrow> ast" where
  "expressionStatement e = Node (mk ExpressionStatement [(F_expression, [Some 0])]) [e]"

definition constDeclaration :: "ast \<Rightarrow> ast \<Rightarrow> ast" where
  "constDeclaration i e =
     Node ((mk VariableDeclaration [(F_declarations, [Some 0])])\<lparr>kind := ''const''\<rparr>)
       [Node (mk VariableDeclarator [(F_id, [Some 0]), (F_init, [Some 1])]) [i, e]]"

definition arrayPattern :: "ast list \<Rightarrow> ast" where
  "arrayPattern els = Node (mk ArrayPattern [(F_elements, range 0 (length els))]) els"

definition importDeclaration :: "string \<Rightarrow> string list \<Rightarrow> ast" where
  "importDeclaration src names =
     Node (mk ImportDeclaration [(F_source, [Some 0]), (F_specifiers, range 1 (length names))])
       (Node ((mk Literal [])\<lparr>strValue := src\<rparr>) []
        # map (\<lambda>s. Node (mk ImportSpecifier [(F_imported, [Some 0]), (F_local, [Some 1])])
                      [identifierNode s, identifierNode s]) names)"

definition binaryNode :: "string \<Rightarrow> ast \<Rightarrow> ast \<Rightarrow> ast" where
  "binaryNode opr l r =
     Node ((mk BinaryExpression [(F_left, [Some 0]), (F_right, [Some 1])])\<lparr>operator := opr\<rparr>) [l, r]"

definition programNode :: "ast list \<Rightarrow> ast" where
  "programNode body = Node (mk Program [(F_body, range 0 (length body))]) body"

definition readRef :: "node \<Rightarrow> reference" where
  "readRef n = \<lparr>ident = n, init = False, isRead = True, isWrite = False\<rparr>"

definition initRef :: "node \<Rightarrow> reference" where
  "initRef n = \<lparr>ident = n, init = True, isRead = False, isWrite = True\<rparr>"

definition byName :: "(string \<times> var) list \<Rightarrow> node \<Rightarrow> string \<Rightarrow> var option" where
  "byName tab scope s = map_of tab s"

text \<open>
  The table \<open>VisitorKeys\<close> of \<open>estraverse\<close> (version 5): the types the library knows, with
  the child fields it descends into. It has no entry for a JSX or TypeScript node, nor
  for \<open>StaticBlock\<close>.
\<close>

definition otherKeys :: "(string \<times> field list) list" where
  "otherKeys =
     [(''AssignmentPattern'', [F_left, F_right]),
      (''AwaitExpression'', [F_argument]),
      (''BlockStatement'', [F_body]),
      (''BreakStatement'', [OtherField ''label'']),
      (''CatchClause'', [OtherField ''param'', F_body]),
      (''ChainExpression'', [F_expression]),
      (''ClassBody'', [F_body]),
      (''ClassDeclaration'', [F_id, OtherField ''superClass'', F_body]),
      (''ClassExpression'', [F_id, OtherField ''superClass'', F_body]),
      (''ComprehensionBlock'', [F_left, F_right]),
      (''ComprehensionExpression'', [OtherField ''blocks'', OtherField ''filter'', F_body]),
      (''ConditionalExpression'', [F_test, F_consequent, F_alternate]),
      (''ContinueStatement'', [OtherField ''label'']),
      (''DebuggerStatement'', []),
      (''DirectiveStatement'', []),
      (''DoWhileStatement'', [F_body, F_test]),
      (''EmptyStatement'', []),
      (''ExportAllDeclaration'', [F_source]),
      (''ExportDefaultDeclaration'', [OtherField ''declaration'']),
      (''ExportNamedDeclaration'', [OtherField ''declaration'', F_specifiers, F_source]),
      (''ExportSpecifier'', [OtherField ''exported'', F_local]),
      (''ForStatement'', [F_init, F_test, OtherField ''update'', F_body]),
      (''ForInStatement'', [F_left, F_right, F_body]),
      (''ForOfStatement'', [F_left, F_right, F_body]),
      (''GeneratorExpression'', [OtherField ''blocks'', OtherField ''filter'', F_body]),
      (''IfStatement'', [F_test, F_consequent, F_alternate]),
      (''ImportExpression'', [F_source]),
      (''ImportDefaultSpecifier'', [F_local]),
      (''ImportNamespaceSpecifier'', [F_local]),
      (''LabeledStatement'', [OtherField ''label'', F_body]),
      (''LogicalExpression'', [F_left, F_right]),
      (''MetaProperty'', [OtherField ''meta'', F_property]),
      (''MethodDefinition'', [F_key, F_value]),
      (''ModuleSpecifier'', []),
      (''ObjectPattern'', [F_properties]),
      (''PrivateIdentifier'', []),
      (''PropertyDefinition'', [F_key, F_value]),
      (''RestElement'', [F_argument]),
      (''ReturnStatement'', [F_argument]),
      (''SequenceExpression'', [F_expressions]),
      (''Super'', []),
      (''SwitchStatement'', [OtherField ''discriminant'', OtherField ''cases'']),
      (''SwitchCase'', [F_test, F_consequent]),
      (''TemplateElement'', []),
      (''ThisExpression'', []),
      (''ThrowStatement'', [F_argument]),
      (''TryStatement'', [OtherField ''block'', OtherField ''handler'', OtherField ''finalizer'']),
      (''UpdateExpression'', [F_argument]),
      (''WhileStatement'', [F_test, F_body]),
      (''WithStatement'', [F_object, F_body]),
      (''YieldExpression'', [F_argument])]"

definition estraverseKeys :: "node_type \<Rightarrow> field list option" where
  "estraverseKeys t =
     (case t of
        Program \<Rightarrow> Some [F_body]
      | FunctionExpression \<Rightarrow> Some [F_id, F_params, F_body]
      | ArrowFunctionExpression \<Rightarrow> Some [F_params, F_body]
      | FunctionDeclaration \<Rightarrow> Some [F_id, F_params, F_body]
      | Identifier \<Rightarrow> Some []
      | Literal \<Rightarrow> Some []
      | CallExpression \<Rightarrow> Some [F_callee, F_arguments]
      | NewExpression \<Rightarrow> Some [F_callee, F_arguments]
      | MemberExpression \<Rightarrow> Some [F_object, F_property]
      | VariableDeclaration \<Rightarrow> Some [F_declarations]
      | VariableDeclarator \<Rightarrow> Some [F_id, F_init]
      | AssignmentExpression \<Rightarrow> Some [F_left, F_right]
      | ExpressionStatement \<Rightarrow> Some [F_expression]
      | TemplateLiteral \<Rightarrow> Some [F_quasis, F_expressions]
      | TaggedTemplateExpression \<Rightarrow> Some [F_tag, F_quasi]
      | BinaryExpression \<Rightarrow> Some [F_left, F_right]
      | UnaryExpression \<Rightarrow> Some [F_argument]
      | ArrayExpression \<Rightarrow> Some [F_elements]
      | ArrayPattern \<Rightarrow> Some [F_elements]
      | ObjectExpression \<Rightarrow> Some [F_properties]
      | Property \<Rightarrow> Some [F_key, F_value]
      | SpreadElement \<Rightarrow> Some [F_argument]
      | ImportDeclaration \<Rightarrow> Some [F_specifiers, F_source]
      | ImportSpecifier \<Rightarrow> Some [F_imported, F_local]
      | OtherType s \<Rightarrow> map_of otherKeys s
      | _ \<Rightarrow> None)"

definition hostOf ::
    "ast \<Rightarrow> (var \<Rightarrow> scope_variable) \<Rightarrow> (string \<times> var) list \<Rightarrow> (node \<times> var list) list \<Rightarrow> provider" where
  "hostOf t vs tab decls =
     \<lparr>root = t, variables = vs, findVariableName = byName tab,
      findVariableNode = (\<lambda>scope n.
         case subtree t (rev n) of None \<Rightarrow> None | Some u \<Rightarrow> map_of tab (name (info_of u))),
      getDeclaredVariables = (\<lambda>n. case map_of decls n of None \<Rightarrow> [] | Some l \<Rightarrow> l),
      getText = (\<lambda>n. []),
      customReactiveFunctions = [], callDepth = 64, visitorKeys = estraverseKeys\<rparr>"

definition asyncArrowNode :: "ast list \<Rightarrow> ast \<Rightarrow> ast" where
  "asyncArrowNode ps b =
     Node ((mk ArrowFunctionExpression
              [(F_params, range 0 (length ps)), (F_body, [Some (length ps)])])\<lparr>async := True\<rparr>)
       (ps @ [b])"

definition blockNode :: "ast list \<Rightarrow> ast" where
  "blockNode body =
     Node (mk (OtherType ''BlockStatement'') [(F_body, range 0 (length body))]) body"

definition returnNode :: "ast \<Rightarrow> ast" where
  "returnNode e = Node (mk (OtherType ''ReturnStatement'') [(F_argument, [Some 0])]) [e]"

definition functionDeclaration :: "string \<Rightarrow> ast list \<Rightarrow> ast list \<Rightarrow> ast" where
  "functionDeclaration f ps body =
     Node (mk FunctionDeclaration
             [(F_id, [Some 0]), (F_params, range 1 (length ps)), (F_body, [Some (Suc (length ps))])])
       (identifierNode f # ps @ [blockNode body])"

definition objectNode :: "(string \<times> ast) list \<Rightarrow> ast" where
  "objectNode kvs =
     Node (mk ObjectExpression [(F_properties, range 0 (length kvs))])
       (map (\<lambda>(k, v). Node ((mk Property [(F_key, [Some 0]), (F_value, [Some 1])])
                               \<lparr>kind := ''init''\<rparr>)
                         [identifierNode k, v]) kvs)"

text \<open>The declaration \<open>const [count, setCount] = createSignal(0)\<close> as the second statement
  of a program: the variables \<open>count\<close> (0, with its reads), \<open>setCount\<close> (1) and the imported
  \<open>createSignal\<close> (2).\<close>

definition countDeclaration :: ast where
  "countDeclaration =
     constDeclaration (arrayPattern [identifierNode ''count'', identifierNode ''setCount''])
       (callNode (identifierNode ''createSignal'') [literalNode])"

definition countVariables :: "reference list \<Rightarrow> var \<Rightarrow> scope_variable" where
  "countVariables reads v =
     (if v = 0 then \<lparr>v_references = initRef [0,0,0,1] # reads,
                     v_defs = [\<lparr>def_type = Variable, def_node = [0,1]\<rparr>]\<rparr>
      else if v = 1 then \<lparr>v_references = [initRef [1,0,0,1]],
                     v_defs = [\<lparr>def_type = Variable, def_node = [0,1]\<rparr>]\<rparr>
      else \<lparr>v_references = [readRef [0,1,0,1]],
            v_defs = [\<lparr>def_type = ImportBinding, def_node = [1,0]\<rparr>]\<rparr>)"

definition countHost :: "string \<Rightarrow> ast list \<Rightarrow> reference list \<Rightarrow> provider" where
  "countHost src rest reads =
     hostOf (programNode
               (importDeclaration src [''createSignal'', ''createEffect''] # countDeclaration # rest))
       (countVariables reads)
       [(''count'', 0), (''setCount'', 1), (''createSignal'', 2)] [([0,1], [0, 1])]"

text \<open>\<open>import { createSignal, createEffect } from "solid-js";
  const [count, setCount] = createSignal(0);
  console.log(count());\<close>
  and the same text importing from another module.\<close>

definition consoleLog :: "ast \<Rightarrow> ast" where
  "consoleLog e = callNode (memberNode (identifierNode ''console'') (identifierNode ''log'')) [e]"

definition directRead :: provider where
  "directRead = countHost ''solid-js''
     [expressionStatement (consoleLog (callNode (identifierNode ''count'') []))]
     [readRef [0,1,0,2]]"

definition directReadElsewhere :: provider where
  "directReadElsewhere = countHost ''signals-lib''
     [expressionStatement (consoleLog (callNode (identifierNode ''count'') []))]
     [readRef [0,1,0,2]]"

text \<open>\<open>createEffect(() => console.log(count()))\<close>, \<open>createEffect(() => count)\<close> and
  \<open>createEffect(() => count + 1)\<close> after the same two statements.\<close>

definition createEffectOf :: "ast \<Rightarrow> ast" where
  "createEffectOf body =
     expressionStatement (callNode (identifierNode ''createEffect'') [arrowNode [] body])"

definition effectCalled :: provider where
  "effectCalled = countHost ''solid-js''
     [createEffectOf (consoleLog (callNode (identifierNode ''count'') []))]
     [readRef [0,1,0,1,0,2]]"

definition effectBare :: provider where
  "effectBare = countHost ''solid-js''
     [createEffectOf (identifierNode ''count'')] [readRef [0,1,0,2]]"

definition effectArithmetic :: provider where
  "effectArithmetic = countHost ''solid-js''
     [createEffectOf (binaryNode ''+'' (identifierNode ''count'') literalNode)]
     [readRef [0,0,1,0,2]]"

text \<open>\<open>import { onMount, createEffect } from "solid-js";
  onMount(async () => {});
  createEffect(async () => {});\<close>\<close>

definition asyncScopes :: provider where
  "asyncScopes = hostOf
     (programNode
        [importDeclaration ''solid-js'' [''onMount'', ''createEffect''],
         expressionStatement (callNode (identifierNode ''onMount'') [asyncArrowNode [] (blockNode [])]),
         expressionStatement
           (callNode (identifierNode ''createEffect'') [asyncArrowNode [] (blockNode [])])])
     (\<lambda>v. \<lparr>v_references = [], v_defs = []\<rparr>) [] []"

text \<open>A stack of two frames, the program and a function in it, and the same with one
  derived signal whose declaration scope is the program.\<close>

definition twoFrames :: state where
  "twoFrames = create\<lparr>stack := [newScopeStackItem [], newScopeStackItem [0]]\<rparr>"

definition mergeEntry :: binding where
  "mergeEntry = \<lparr>references = [], variable = 0, declarationScope = [], bid = 0\<rparr>"

definition mergeState :: state where
  "mergeState = twoFrames\<lparr>signals := [mergeEntry], registered := [0]\<rparr>"

text \<open>The stack at the exit of the program, with an entry whose declaration scope is a
  function that has been left.\<close>

definition exitedEntry :: binding where
  "exitedEntry = \<lparr>references = [], variable = 0, declarationScope = [1], bid = 0\<rparr>"

definition exitedState :: state where
  "exitedState = create\<lparr>stack := [newScopeStackItem []], signals := [exitedEntry],
     registered := [0]\<rparr>"

text \<open>The stack at the exit of the arrow function of \<open>effectCalled\<close>, and the stack
  at the exit of the program when that arrow function is a synchronous callback.\<close>

definition effectFrames :: state where
  "effectFrames = create\<lparr>stack := [newScopeStackItem [], newScopeStackItem [1,0,2]]\<rparr>"

definition syncFrame :: state where
  "syncFrame = create\<lparr>stack := [newScopeStackItem []], syncCallbacks := [[1,0,2]]\<rparr>"

text \<open>\<open>function Comp(props) { return props.P; }\<close> for a property name \<open>P\<close>.\<close>

definition componentReading :: "string \<Rightarrow> provider" where
  "componentReading prop =
     (hostOf
        (programNode
           [functionDeclaration ''Comp'' [identifierNode ''props'']
              [returnNode (memberNode (identifierNode ''props'') (identifierNode prop))]])
        (\<lambda>v. \<lparr>v_references = [readRef [0,0,0,2,0]],
               v_defs = [\<lparr>def_type = Parameter, def_node = [0]\<rparr>]\<rparr>)
        [(''props'', 0)] [([0], [1])])
     \<lparr>getText := (\<lambda>n. if n = [0,0,2,0] then ''props.'' @ prop else [])\<rparr>"


text \<open>\<open>const api = { next: () => B };\<close> after the declaration of \<open>count\<close>, for a body \<open>B\<close>
  that reads \<open>count\<close>: \<open>count()\<close> and \<open>count + 1\<close>; and the stack at the exit of that arrow
  function.\<close>

definition propertyFunction :: "ast \<Rightarrow> reference list \<Rightarrow> provider" where
  "propertyFunction body reads =
     hostOf (programNode
               [importDeclaration ''solid-js'' [''createSignal'', ''createEffect''],
                countDeclaration,
                constDeclaration (identifierNode ''api'')
                  (objectNode [(''next'', arrowNode [] body)])])
       (\<lambda>v. if v = 3 then \<lparr>v_references = [initRef [0,0,2]],
                            v_defs = [\<lparr>def_type = Variable, def_node = [0,2]\<rparr>]\<rparr>
             else countVariables reads v)
       [(''count'', 0), (''setCount'', 1), (''createSignal'', 2), (''api'', 3)]
       [([0,1], [0, 1]), ([0,2], [3])]"

definition propertyCalled :: provider where
  "propertyCalled = propertyFunction (callNode (identifierNode ''count'') []) [readRef [0,0,1,0,1,0,2]]"



text \<open>A read in a function that stands before the declaration of the signal:
  \<open>import { createSignal } from "solid-js";
  function foo() { return count(); }
  const [count, setCount] = createSignal(0);\<close>\<close>

definition hoistedRead :: provider where
  "hoistedRead = hostOf
     (programNode
        [importDeclaration ''solid-js'' [''createSignal''],
         functionDeclaration ''foo'' [] [returnNode (callNode (identifierNode ''count'') [])],
         constDeclaration (arrayPattern [identifierNode ''count'', identifierNode ''setCount''])
           (callNode (identifierNode ''createSignal'') [literalNode])])
     (\<lambda>v. if v = 0 then \<lparr>v_references = [readRef [0,0,0,1,1], initRef [0,0,0,2]],
                           v_defs = [\<lparr>def_type = Variable, def_node = [0,2]\<rparr>]\<rparr>
           else if v = 1 then \<lparr>v_references = [initRef [1,0,0,2]],
                           v_defs = [\<lparr>def_type = Variable, def_node = [0,2]\<rparr>]\<rparr>
           else if v = 2 then \<lparr>v_references = [readRef [0,1,0,2]],
                           v_defs = [\<lparr>def_type = ImportBinding, def_node = [1,0]\<rparr>]\<rparr>
           else \<lparr>v_references = [], v_defs = [\<lparr>def_type = FunctionName, def_node = [1]\<rparr>]\<rparr>)
     [(''count'', 0), (''setCount'', 1), (''createSignal'', 2), (''foo'', 3)]
     [([0,2], [0, 1]), ([1], [3])]"


section \<open>\<open>findDeepestDeclarationScope\<close> and the merge of declaration scopes\<close>

text \<open>\<open>ancestorOrEqual a b\<close>: the node \<open>a\<close> is \<open>b\<close> or an ancestor of \<open>b\<close> in the tree. A stack
  is \<open>nested\<close> when every frame's node is an ancestor of or equal to the nodes of the frames
  above it, as the frames of a walk are.\<close>

definition ancestorOrEqual :: "node \<Rightarrow> node \<Rightarrow> bool" where
  "ancestorOrEqual a b = (length a \<le> length b \<and> drop (length b - length a) b = a)"

definition nested :: "ScopeStackItem list \<Rightarrow> bool" where
  "nested s = (\<forall>j<length s. \<forall>i\<le>j. ancestorOrEqual (node (s ! i)) (node (s ! j)))"

lemma scanStack_none:
  "\<forall>i<k. a \<noteq> node (s ! i) \<and> b \<noteq> node (s ! i) \<Longrightarrow> scanStack s a b k = Inl NeverHappen"
  by (induction k) auto

lemma scanStack_top:
  "k \<le> length s \<Longrightarrow> m < k \<Longrightarrow> a = node (s ! m) \<or> b = node (s ! m) \<Longrightarrow>
   \<forall>i. m < i \<and> i < k \<longrightarrow> a \<noteq> node (s ! i) \<and> b \<noteq> node (s ! i) \<Longrightarrow>
   scanStack s a b k = Inr (node (s ! m))"
proof (induction k)
  case 0
  then show ?case by simp
next
  case (Suc k)
  show ?case
  proof (cases "m = k")
    case True
    with Suc.prems show ?thesis by auto
  next
    case False
    with Suc.prems have mk: "m < k" by simp
    with Suc.prems have "a \<noteq> node (s ! k) \<and> b \<noteq> node (s ! k)" by simp
    moreover have "scanStack s a b k = Inr (node (s ! m))"
      using Suc.IH Suc.prems mk by simp
    ultimately show ?thesis by simp
  qed
qed

lemma findDeepest_positions:
  assumes d: "distinct (map node (stack st))"
    and i: "i < length (stack st)" and j: "j < length (stack st)"
  shows "findDeepestDeclarationScope st (node (stack st ! i)) (node (stack st ! j))
           = Inr (node (stack st ! max i j))"
proof (cases "i = j")
  case True
  then show ?thesis by (simp add: findDeepestDeclarationScope_def)
next
  case False
  let ?s = "stack st"
  have inj: "\<And>p q. p < length ?s \<Longrightarrow> q < length ?s \<Longrightarrow> node (?s ! p) = node (?s ! q) \<Longrightarrow> p = q"
    using d by (metis length_map nth_eq_iff_index_eq nth_map)
  have ne: "node (?s ! i) \<noteq> node (?s ! j)" using inj i j False by blast
  have m: "max i j < length ?s" using i j by simp
  have "scanStack ?s (node (?s ! i)) (node (?s ! j)) (length ?s) = Inr (node (?s ! max i j))"
  proof (rule scanStack_top)
    show "length ?s \<le> length ?s" by simp
    show "max i j < length ?s" by (rule m)
    show "node (?s ! i) = node (?s ! max i j) \<or> node (?s ! j) = node (?s ! max i j)"
      by (simp add: max_def)
    show "\<forall>k. max i j < k \<and> k < length ?s \<longrightarrow>
            node (?s ! i) \<noteq> node (?s ! k) \<and> node (?s ! j) \<noteq> node (?s ! k)"
      using inj i j by (metis max_less_iff_conj less_irrefl)
  qed
  with ne show ?thesis by (simp add: findDeepestDeclarationScope_def)
qed

lemma findDeepest_absent:
  assumes "a \<noteq> b" "a \<notin> node ` set (stack st)" "b \<notin> node ` set (stack st)"
  shows "findDeepestDeclarationScope st a b = Inl NeverHappen"
proof -
  have "\<forall>i<length (stack st). a \<noteq> node (stack st ! i) \<and> b \<noteq> node (stack st ! i)"
    using assms by (metis image_eqI nth_mem)
  then show ?thesis using assms(1) by (simp add: findDeepestDeclarationScope_def scanStack_none)
qed

lemma scanStack_result:
  "scanStack s a b k = Inr r \<Longrightarrow>
   \<exists>m<k. r = node (s ! m) \<and> (r = a \<or> r = b)
      \<and> (\<forall>i. m < i \<and> i < k \<longrightarrow> a \<noteq> node (s ! i) \<and> b \<noteq> node (s ! i))"
proof (induction k)
  case 0
  then show ?case by simp
next
  case (Suc k)
  show ?case
  proof (cases "a = node (s ! k) \<or> b = node (s ! k)")
    case True
    with Suc.prems have "r = node (s ! k)" by auto
    with True show ?thesis by (intro exI [of _ k]) auto
  next
    case False
    with Suc.prems have "scanStack s a b k = Inr r" by simp
    from Suc.IH [OF this] obtain m where m: "m < k" "r = node (s ! m)" "r = a \<or> r = b"
      "\<forall>i. m < i \<and> i < k \<longrightarrow> a \<noteq> node (s ! i) \<and> b \<noteq> node (s ! i)" by blast
    show ?thesis
    proof (intro exI [of _ m] conjI allI impI)
      show "m < Suc k" using m(1) by simp
      show "r = node (s ! m)" by (rule m(2))
      show "r = a \<or> r = b" by (rule m(3))
    next
      fix i assume "m < i \<and> i < Suc k"
      then show "a \<noteq> node (s ! i)" using m(4) False by (cases "i = k") auto
    next
      fix i assume "m < i \<and> i < Suc k"
      then show "b \<noteq> node (s ! i)" using m(4) False by (cases "i = k") auto
    qed
  qed
qed

lemma findDeepest_result:
  assumes "findDeepestDeclarationScope st a b = Inr r"
  shows "(r = a \<or> r = b) \<and>
     (\<forall>i<length (stack st). node (stack st ! i) = a \<longrightarrow>
        (\<exists>j. i \<le> j \<and> j < length (stack st) \<and> node (stack st ! j) = r))"
proof (cases "a = b")
  case True
  with assms show ?thesis by (auto simp: findDeepestDeclarationScope_def)
next
  case False
  with assms have "scanStack (stack st) a b (length (stack st)) = Inr r"
    by (simp add: findDeepestDeclarationScope_def)
  from scanStack_result [OF this] obtain m where m: "m < length (stack st)"
    "r = node (stack st ! m)" "r = a \<or> r = b"
    "\<forall>i. m < i \<and> i < length (stack st) \<longrightarrow> a \<noteq> node (stack st ! i) \<and> b \<noteq> node (stack st ! i)"
    by blast
  have "\<exists>j. i \<le> j \<and> j < length (stack st) \<and> node (stack st ! j) = r"
    if "i < length (stack st)" "node (stack st ! i) = a" for i
  proof -
    have "i \<le> m"
    proof (rule ccontr)
      assume "\<not> i \<le> m"
      then have "m < i \<and> i < length (stack st)" using that(1) by simp
      with m(4) have "a \<noteq> node (stack st ! i)" by blast
      with that(2) show False by simp
    qed
    then show ?thesis using m(1,2) by blast
  qed
  with m(3) show ?thesis by blast
qed

lemma find_setFirst:
  assumes "find p xs = Some e" and "p (f e)"
  shows "find p (setFirst p f xs) = Some (f e)"
  using assms by (induction xs) (auto split: if_splits)

lemma pushUniqueSignal_merge:
  assumes f: "find (\<lambda>s. variable s = v) (signals st) = Some e"
    and p: "pushUniqueSignal P v scope st = Inr s"
  shows "\<exists>d. findDeepestDeclarationScope st (declarationScope e) scope = Inr d
           \<and> find (\<lambda>s. variable s = v) (signals s) = Some (e\<lparr>declarationScope := d\<rparr>)
           \<and> stack s = stack st"
proof -
  from f have ve: "variable e = v" by (induction "signals st") (auto dest: find_Some_iff [THEN iffD1])
  from p f obtain d where d: "findDeepestDeclarationScope st (declarationScope e) scope = Inr d"
    and s: "s = st\<lparr>signals := setFirst (\<lambda>s. variable s = v)
                   (\<lambda>s. s\<lparr>declarationScope := d\<rparr>) (signals st)\<rparr>"
    by (auto simp: pushUniqueSignal_def andThen_Inr_iff)
  have "find (\<lambda>s. variable s = v) (signals s) = Some (e\<lparr>declarationScope := d\<rparr>)"
    unfolding s using find_setFirst [OF f, of "\<lambda>s. s\<lparr>declarationScope := d\<rparr>"] ve by simp
  with d s show ?thesis by simp
qed

lemma scanStack_some:
  "\<exists>i<k. a = node (s ! i) \<or> b = node (s ! i) \<Longrightarrow> \<exists>r. scanStack s a b k = Inr r"
  by (induction k) (auto simp: less_Suc_eq)

lemma find_split:
  "find p xs = Some e \<Longrightarrow> \<exists>pre post. xs = pre @ e # post \<and> (\<forall>x\<in>set pre. \<not> p x) \<and> p e"
proof (induction xs)
  case Nil
  then show ?case by simp
next
  case (Cons x xs)
  show ?case
  proof (cases "p x")
    case True
    with Cons.prems have "x = e" by simp
    with True have "x # xs = [] @ e # xs \<and> (\<forall>x\<in>set []. \<not> p x) \<and> p e" by simp
    then show ?thesis by blast
  next
    case False
    with Cons.prems have "find p xs = Some e" by simp
    from Cons.IH [OF this] obtain pre post where
      "xs = pre @ e # post" "\<forall>x\<in>set pre. \<not> p x" "p e" by blast
    with False have "x # xs = (x # pre) @ e # post \<and> (\<forall>y\<in>set (x # pre). \<not> p y) \<and> p e"
      by simp
    then show ?thesis by blast
  qed
qed

lemma setFirst_split:
  "\<forall>x\<in>set pre. \<not> p x \<Longrightarrow> p e \<Longrightarrow> setFirst p f (pre @ e # post) = pre @ f e # post"
  by (induction pre) auto

text \<open>
  C3 (as amended). When \<open>pushUniqueSignal\<close> is called for a variable that already has an
  entry (the first entry of \<open>signals\<close> with that variable), the merge changes nothing but
  the declaration scope of that entry, and sets it to what \<open>findDeepestDeclarationScope\<close>
  gives for the previous scope and the scope passed in: the previous scope when the two
  are equal; otherwise the node of the innermost frame of the stack that holds one of the
  two; and the run aborts when no frame holds either. So when the previous scope is on a
  stack whose frames are nested in the tree, the new scope is the previous one or a scope
  inside it: such a merge moves the declaration scope toward the leaves, never toward the
  root. When the previous scope is on no frame and the scope passed in is, the scope
  passed in is taken, whatever its depth.
\<close>

theorem pushUniqueSignal_merge_scope:
  assumes f: "find (\<lambda>s. variable s = v) (signals st) = Some e"
  shows "\<exists>pre post. signals st = pre @ e # post \<and> (\<forall>x\<in>set pre. variable x \<noteq> v)
     \<and> (declarationScope e = scope \<longrightarrow> pushUniqueSignal P v scope st = Inr st)
     \<and> (\<forall>m. declarationScope e \<noteq> scope \<and> m < length (stack st)
             \<and> (node (stack st ! m) = declarationScope e \<or> node (stack st ! m) = scope)
             \<and> (\<forall>i. m < i \<and> i < length (stack st) \<longrightarrow>
                   node (stack st ! i) \<noteq> declarationScope e \<and> node (stack st ! i) \<noteq> scope)
           \<longrightarrow> pushUniqueSignal P v scope st
                = Inr (st\<lparr>signals := pre @ e\<lparr>declarationScope := node (stack st ! m)\<rparr> # post\<rparr>))
     \<and> (declarationScope e \<noteq> scope
           \<and> (\<forall>i<length (stack st).
                 node (stack st ! i) \<noteq> declarationScope e \<and> node (stack st ! i) \<noteq> scope)
           \<longrightarrow> pushUniqueSignal P v scope st = Inl NeverHappen)
     \<and> (declarationScope e \<noteq> scope \<and> declarationScope e \<notin> node ` set (stack st)
           \<and> scope \<in> node ` set (stack st)
           \<longrightarrow> pushUniqueSignal P v scope st
                = Inr (st\<lparr>signals := pre @ e\<lparr>declarationScope := scope\<rparr> # post\<rparr>))
     \<and> (\<forall>s. pushUniqueSignal P v scope st = Inr s \<and> nested (stack st)
             \<and> declarationScope e \<in> node ` set (stack st)
           \<longrightarrow> (\<exists>e'. find (\<lambda>s. variable s = v) (signals s) = Some e'
                  \<and> ancestorOrEqual (declarationScope e) (declarationScope e')))"
proof -
  let ?a = "declarationScope e"
  let ?p = "\<lambda>s. variable s = v"
  from find_split [OF f] obtain pre post where
    sp: "signals st = pre @ e # post" "\<forall>x\<in>set pre. variable x \<noteq> v" "variable e = v" by blast
  have upd: "setFirst ?p (\<lambda>s. s\<lparr>declarationScope := d\<rparr>) (signals st)
      = pre @ e\<lparr>declarationScope := d\<rparr> # post" for d
    unfolding sp(1) using sp(2,3) by (intro setFirst_split) auto
  have run: "pushUniqueSignal P v scope st =
      andThen (findDeepestDeclarationScope st ?a scope)
        (\<lambda>d. Inr (st\<lparr>signals := pre @ e\<lparr>declarationScope := d\<rparr> # post\<rparr>))"
    using f by (simp add: pushUniqueSignal_def upd)
  have same: "pushUniqueSignal P v scope st = Inr st" if "?a = scope"
  proof -
    have "pre @ e\<lparr>declarationScope := ?a\<rparr> # post = signals st" by (simp add: sp(1))
    then show ?thesis using that by (simp add: run findDeepestDeclarationScope_def)
  qed
  have top: "pushUniqueSignal P v scope st
      = Inr (st\<lparr>signals := pre @ e\<lparr>declarationScope := node (stack st ! m)\<rparr> # post\<rparr>)"
    if "?a \<noteq> scope" "m < length (stack st)"
      "node (stack st ! m) = ?a \<or> node (stack st ! m) = scope"
      "\<forall>i. m < i \<and> i < length (stack st) \<longrightarrow>
         node (stack st ! i) \<noteq> ?a \<and> node (stack st ! i) \<noteq> scope" for m
  proof -
    have "scanStack (stack st) ?a scope (length (stack st)) = Inr (node (stack st ! m))"
      by (rule scanStack_top) (use that in auto)
    with that(1) show ?thesis by (simp add: run findDeepestDeclarationScope_def)
  qed
  have none: "pushUniqueSignal P v scope st = Inl NeverHappen"
    if "?a \<noteq> scope"
      "\<forall>i<length (stack st). node (stack st ! i) \<noteq> ?a \<and> node (stack st ! i) \<noteq> scope"
  proof -
    have "scanStack (stack st) ?a scope (length (stack st)) = Inl NeverHappen"
      by (rule scanStack_none) (use that(2) in auto)
    with that(1) show ?thesis by (simp add: run findDeepestDeclarationScope_def)
  qed
  have passed: "pushUniqueSignal P v scope st
      = Inr (st\<lparr>signals := pre @ e\<lparr>declarationScope := scope\<rparr> # post\<rparr>)"
    if "?a \<noteq> scope" "?a \<notin> node ` set (stack st)" "scope \<in> node ` set (stack st)"
  proof -
    from that(3) obtain i where "i < length (stack st)" "scope = node (stack st ! i)"
      by (metis image_iff in_set_conv_nth)
    then have "\<exists>i<length (stack st). ?a = node (stack st ! i) \<or> scope = node (stack st ! i)"
      by blast
    from scanStack_some [OF this] obtain r where
      r: "scanStack (stack st) ?a scope (length (stack st)) = Inr r" by blast
    from scanStack_result [OF r] obtain m where
      m: "m < length (stack st)" "r = node (stack st ! m)" "r = ?a \<or> r = scope" by blast
    from m(1,2) have "r \<in> node ` set (stack st)" by simp
    with that(2) have "r \<noteq> ?a" by blast
    with m(3) have "r = scope" by simp
    with r that(1) show ?thesis by (simp add: run findDeepestDeclarationScope_def)
  qed
  have inward: "\<exists>e'. find ?p (signals s) = Some e' \<and> ancestorOrEqual ?a (declarationScope e')"
    if p: "pushUniqueSignal P v scope st = Inr s" and n: "nested (stack st)"
      and on: "?a \<in> node ` set (stack st)" for s
  proof -
    from pushUniqueSignal_merge [OF f p] obtain d where
      d: "findDeepestDeclarationScope st ?a scope = Inr d"
      and e': "find ?p (signals s) = Some (e\<lparr>declarationScope := d\<rparr>)" by blast
    from on obtain i where i: "i < length (stack st)" "node (stack st ! i) = ?a"
      by (metis image_iff in_set_conv_nth)
    with findDeepest_result [OF d] obtain j where
      j: "i \<le> j" "j < length (stack st)" "node (stack st ! j) = d" by blast
    with n i have "ancestorOrEqual ?a d" unfolding nested_def by metis
    with e' show ?thesis by simp
  qed
  show ?thesis
  proof (rule exI [of _ pre], rule exI [of _ post], intro conjI allI impI)
    show "signals st = pre @ e # post" by (rule sp(1))
    show "\<forall>x\<in>set pre. variable x \<noteq> v" by (rule sp(2))
    show "pushUniqueSignal P v scope st = Inr st" if "?a = scope" by (rule same [OF that])
    show "pushUniqueSignal P v scope st
        = Inr (st\<lparr>signals := pre @ e\<lparr>declarationScope := node (stack st ! m)\<rparr> # post\<rparr>)"
      if "?a \<noteq> scope \<and> m < length (stack st)
          \<and> (node (stack st ! m) = ?a \<or> node (stack st ! m) = scope)
          \<and> (\<forall>i. m < i \<and> i < length (stack st) \<longrightarrow>
                node (stack st ! i) \<noteq> ?a \<and> node (stack st ! i) \<noteq> scope)" for m
      using that by (intro top) simp_all
    show "pushUniqueSignal P v scope st = Inl NeverHappen"
      if "?a \<noteq> scope
          \<and> (\<forall>i<length (stack st). node (stack st ! i) \<noteq> ?a \<and> node (stack st ! i) \<noteq> scope)"
      using that by (intro none) simp_all
    show "pushUniqueSignal P v scope st
        = Inr (st\<lparr>signals := pre @ e\<lparr>declarationScope := scope\<rparr> # post\<rparr>)"
      if "?a \<noteq> scope \<and> ?a \<notin> node ` set (stack st) \<and> scope \<in> node ` set (stack st)"
      using that by (intro passed) simp_all
    show "\<exists>e'. find ?p (signals s) = Some e' \<and> ancestorOrEqual ?a (declarationScope e')"
      if "pushUniqueSignal P v scope st = Inr s \<and> nested (stack st)
          \<and> ?a \<in> node ` set (stack st)" for s
      using that by (intro inward) simp_all
  qed
qed

text \<open>
  C6 (as amended). On a stack whose frames hold different nodes,
  \<open>findDeepestDeclarationScope\<close> applied to the nodes of two frames returns the node of the
  deeper frame; applied to twice the same node it returns that node, on the stack or not;
  applied to two different nodes neither of which is on the stack it throws.
\<close>

theorem findDeepestDeclarationScope_spec:
  "(distinct (map node (stack st)) \<and> i < length (stack st) \<and> j < length (stack st) \<longrightarrow>
      findDeepestDeclarationScope st (node (stack st ! i)) (node (stack st ! j))
        = Inr (node (stack st ! max i j)))
   \<and> findDeepestDeclarationScope st a a = Inr a
   \<and> (a \<noteq> b \<and> a \<notin> node ` set (stack st) \<and> b \<notin> node ` set (stack st) \<longrightarrow>
        findDeepestDeclarationScope st a b = Inl NeverHappen)"
  using findDeepest_positions [of st i j] findDeepest_absent [of a b st]
  by (simp add: findDeepestDeclarationScope_def)

theorem findDeepestDeclarationScope_spec_witness:
  "findDeepestDeclarationScope twoFrames [] [0] = Inr [0]
   \<and> findDeepestDeclarationScope twoFrames [0] [] = Inr [0]
   \<and> findDeepestDeclarationScope twoFrames [0] [0] = Inr [0]
   \<and> findDeepestDeclarationScope twoFrames [5] [6] = Inl NeverHappen"
  using findDeepestDeclarationScope_spec [of twoFrames 0 1 "[0]" "[6]"]
    findDeepestDeclarationScope_spec [of twoFrames 1 0 "[5]" "[6]"]
  by (simp add: twoFrames_def create_def newScopeStackItem_def findDeepestDeclarationScope_def)

text \<open>C6 as stated fails: neither node is on the stack, and the call returns a value.\<close>

theorem findDeepestDeclarationScope_absent_equal_counterexample:
  "[5] \<notin> node ` set (stack twoFrames)
   \<and> findDeepestDeclarationScope twoFrames [5] [5] = Inr [5]"
  by (simp add: twoFrames_def create_def newScopeStackItem_def findDeepestDeclarationScope_def)

text \<open>C3 as stated fails: the entry's declaration scope is the program, the merge with
  the function \<open>[0]\<close> inside it makes it that function, which is no ancestor of the
  program.\<close>

theorem merge_toward_leaf_counterexample:
  "find (\<lambda>s. variable s = 0) (signals mergeState) = Some mergeEntry
   \<and> declarationScope mergeEntry = []
   \<and> map_sum id (\<lambda>s. map declarationScope (signals s))
        (pushUniqueSignal directRead 0 [0] mergeState) = Inr [[0]]
   \<and> \<not> ancestorOrEqual [0] []"
  by (simp add: mergeState_def mergeEntry_def twoFrames_def create_def newScopeStackItem_def
        pushUniqueSignal_def findDeepestDeclarationScope_def ancestorOrEqual_def)

theorem pushUniqueSignal_merge_scope_witness:
  "find (\<lambda>s. variable s = 0) (signals mergeState) = Some mergeEntry
   \<and> pushUniqueSignal directRead 0 [0] mergeState
       = Inr (mergeState\<lparr>signals := [mergeEntry\<lparr>declarationScope := [0]\<rparr>]\<rparr>)
   \<and> pushUniqueSignal directRead 0 [] mergeState = Inr mergeState
   \<and> pushUniqueSignal directRead 0 [7] (mergeState\<lparr>stack := []\<rparr>) = Inl NeverHappen
   \<and> nested (stack mergeState)
   \<and> declarationScope mergeEntry \<in> node ` set (stack mergeState)
   \<and> ancestorOrEqual (declarationScope mergeEntry) [0]
   \<and> find (\<lambda>s. variable s = 0) (signals exitedState) = Some exitedEntry
   \<and> declarationScope exitedEntry \<notin> node ` set (stack exitedState)
   \<and> pushUniqueSignal directRead 0 [] exitedState
       = Inr (exitedState\<lparr>signals := [exitedEntry\<lparr>declarationScope := []\<rparr>]\<rparr>)"
proof -
  have f: "find (\<lambda>s. variable s = 0) (signals mergeState) = Some mergeEntry"
    by (simp add: mergeState_def mergeEntry_def)
  have g: "find (\<lambda>s. variable s = 0) (signals exitedState) = Some exitedEntry"
    by (simp add: exitedState_def exitedEntry_def)
  have p: "pushUniqueSignal directRead 0 [0] mergeState
       = Inr (mergeState\<lparr>signals := [mergeEntry\<lparr>declarationScope := [0]\<rparr>]\<rparr>)"
    by (simp add: mergeState_def mergeEntry_def twoFrames_def create_def newScopeStackItem_def
        pushUniqueSignal_def findDeepestDeclarationScope_def)
  have q: "pushUniqueSignal directRead 0 [] mergeState = Inr mergeState"
    by (simp add: mergeState_def mergeEntry_def twoFrames_def create_def newScopeStackItem_def
        pushUniqueSignal_def findDeepestDeclarationScope_def)
  have r: "pushUniqueSignal directRead 0 [7] (mergeState\<lparr>stack := []\<rparr>) = Inl NeverHappen"
    by (simp add: mergeState_def mergeEntry_def twoFrames_def create_def newScopeStackItem_def
        pushUniqueSignal_def findDeepestDeclarationScope_def)
  have o: "pushUniqueSignal directRead 0 [] exitedState
       = Inr (exitedState\<lparr>signals := [exitedEntry\<lparr>declarationScope := []\<rparr>]\<rparr>)"
    by (simp add: exitedState_def exitedEntry_def create_def newScopeStackItem_def
        pushUniqueSignal_def findDeepestDeclarationScope_def)
  have n: "nested (stack mergeState)"
    by (simp add: nested_def mergeState_def twoFrames_def newScopeStackItem_def
        ancestorOrEqual_def less_Suc_eq le_Suc_eq)
  have m: "declarationScope mergeEntry \<in> node ` set (stack mergeState)"
    by (simp add: mergeState_def mergeEntry_def twoFrames_def newScopeStackItem_def)
  have x: "declarationScope exitedEntry \<notin> node ` set (stack exitedState)"
    by (simp add: exitedState_def exitedEntry_def newScopeStackItem_def)
  from pushUniqueSignal_merge_scope [OF f, of "[0]" directRead] p n m
  have "ancestorOrEqual (declarationScope mergeEntry) [0]"
    by (auto simp: mergeState_def mergeEntry_def)
  with f g p q r o n m x show ?thesis by simp
qed

section \<open>Whole programs\<close>

lemma lint_directRead:
  "lint directRead = Inr [\<lparr>r_node = [1,0,2], messageId = untrackedReactive,
      r_data = [(''name'', ''count'')]\<rparr>]"
  by code_simp

lemma lint_directReadElsewhere: "lint directReadElsewhere = Inr []"
  by code_simp

lemma lint_effectCalled: "lint effectCalled = Inr []"
  by code_simp

lemma lint_effectBare: "lint effectBare = Inr []"
  by code_simp

lemma lint_effectArithmetic:
  "lint effectArithmetic = Inr [\<lparr>r_node = [0,0,1,0,2], messageId = badSignal,
      r_data = [(''name'', ''count''), (''where'', ''arithmetic or comparisons'')]\<rparr>]"
  by code_simp

lemma lint_asyncScopes:
  "lint asyncScopes = Inr [\<lparr>r_node = [1,0,2], messageId = noAsyncTrackedScope, r_data = []\<rparr>]"
  by code_simp

lemma asyncScopes_registered:
  "map_sum id (\<lambda>s. (map trackedScopes (stack s), reports s))
     (run asyncScopes (takeWhile (\<lambda>e. e \<noteq> Enter [1,0,1]) (walk (root asyncScopes) [])) create)
   = Inr ([[\<lparr>ts_node = Some [1,0,1], expect = ExpectCalledFunction\<rparr>]], [])"
  by code_simp

lemma asyncScopes_async:
  "isFunctionNode asyncScopes (Some [1,0,1]) \<and> attr asyncScopes async False (Some [1,0,1])"
  by code_simp

text \<open>
  C4 (as amended). With \<open>createSignal\<close> imported from \<open>solid-js\<close>, so that \<open>count\<close> is a
  signal, the program \<open>const [count, setCount] = createSignal(0); console.log(count());\<close>
  yields exactly one diagnostic: the read is in the scope of its declaration and no
  tracked scope contains it, which is an untracked read, reported at the call \<open>count()\<close>.
  The same text yields no diagnostic when \<open>createSignal\<close> does not come from \<open>solid-js\<close>.
\<close>

theorem direct_read_untracked:
  "lint directRead = Inr [\<lparr>r_node = [1,0,2], messageId = untrackedReactive,
      r_data = [(''name'', ''count'')]\<rparr>]
   \<and> lint directReadElsewhere = Inr []"
  using lint_directRead lint_directReadElsewhere by simp

text \<open>C4 as stated fails: the analysis of the program does not yield zero diagnostics.\<close>

theorem direct_read_counterexample: "lint directRead \<noteq> Inr []"
  using lint_directRead by simp

text \<open>
  C5 (as amended). \<open>createEffect(() => console.log(count()))\<close> yields no diagnostic, and
  \<open>createEffect(() => count)\<close> yields none either: a read that is not invoked is flagged
  only in the listed contexts (template literal, arithmetic or comparison, unary
  operator, computed property key, JSX), and the body of an arrow function is none of
  them. Inside the same tracked scope \<open>createEffect(() => count + 1)\<close> yields exactly one
  bad-call-context diagnostic, at \<open>count\<close>: containment in a tracked scope does not exempt
  a read from the calling convention.
\<close>

theorem tracked_scope_calling_convention:
  "lint effectCalled = Inr []
   \<and> lint effectBare = Inr []
   \<and> lint effectArithmetic = Inr [\<lparr>r_node = [0,0,1,0,2], messageId = badSignal,
        r_data = [(''name'', ''count''), (''where'', ''arithmetic or comparisons'')]\<rparr>]"
  using lint_effectCalled lint_effectBare lint_effectArithmetic by simp

text \<open>C5 as stated fails: \<open>createEffect(() => count)\<close> does not yield exactly one
  diagnostic.\<close>

theorem bare_read_counterexample:
  "map_sum id length (lint effectBare) \<noteq> Inr 1"
  using lint_effectBare by simp

section \<open>Asynchronous tracked scopes\<close>

text \<open>
  C2 (as amended). \<open>pushTrackedScope\<close> registers the entry in the current frame, and it
  reports \<open>noAsyncTrackedScope\<close> at the node exactly when the expectation is not
  \<open>called-function\<close> and the node is a function declared \<open>async\<close>. An entry with
  expectation \<open>called-function\<close> is never reported, asynchronous or not.
\<close>

theorem pushTrackedScope_report:
  assumes "stack st \<noteq> []"
  shows "\<exists>s. pushTrackedScope P n ex st = Inr s
     \<and> trackedScopes (last (stack s))
         = trackedScopes (last (stack st)) @ [\<lparr>ts_node = n, expect = ex\<rparr>]
     \<and> reports s =
         (if ex \<noteq> ExpectCalledFunction \<and> isFunctionNode P n \<and> attr P async False n
          then reports st @ [\<lparr>r_node = the n, messageId = noAsyncTrackedScope, r_data = []\<rparr>]
          else reports st)"
  using assms
  by (auto simp: pushTrackedScope_def currentScope_def updateCurrent_def Let_def
        context_report_def last_list_update)

theorem pushTrackedScope_report_witness:
  "stack twoFrames \<noteq> []
   \<and> map_sum id reports (pushTrackedScope asyncScopes (Some [1,0,2]) ExpectFunction twoFrames)
       = Inr [\<lparr>r_node = [1,0,2], messageId = noAsyncTrackedScope, r_data = []\<rparr>]
   \<and> map_sum id reports
       (pushTrackedScope asyncScopes (Some [1,0,1]) ExpectCalledFunction twoFrames) = Inr []"
proof -
  have h: "stack twoFrames \<noteq> []" by (simp add: twoFrames_def)
  have a: "isFunctionNode asyncScopes (Some [1,0,2]) \<and> attr asyncScopes async False (Some [1,0,2])"
    by code_simp
  have r: "reports twoFrames = []" by (simp add: twoFrames_def create_def)
  from pushTrackedScope_report [OF h, of asyncScopes "Some [1,0,2]" ExpectFunction]
    pushTrackedScope_report [OF h, of asyncScopes "Some [1,0,1]" ExpectCalledFunction] a r h
  show ?thesis by auto
qed

text \<open>C2 as stated fails: the argument of \<open>onMount\<close> is an asynchronous function
  registered with expectation \<open>called-function\<close>, and the only diagnostic of the run is the
  one at the argument of \<open>createEffect\<close>.\<close>

theorem async_called_function_counterexample:
  "isFunctionNode asyncScopes (Some [1,0,1]) \<and> attr asyncScopes async False (Some [1,0,1])
   \<and> map_sum id (\<lambda>s. (map trackedScopes (stack s), reports s))
       (run asyncScopes (takeWhile (\<lambda>e. e \<noteq> Enter [1,0,1]) (walk (root asyncScopes) [])) create)
     = Inr ([[\<lparr>ts_node = Some [1,0,1], expect = ExpectCalledFunction\<rparr>]], [])
   \<and> lint asyncScopes
     = Inr [\<lparr>r_node = [1,0,2], messageId = noAsyncTrackedScope, r_data = []\<rparr>]"
  using asyncScopes_async asyncScopes_registered lint_asyncScopes by simp

section \<open>\<open>isReferenceInCurrentScope\<close> against the words of the specification\<close>

text \<open>The words of the specification: the ancestors of a node, nearest first; those that
  are a function or the program; the first of them that is not a synchronous callback.\<close>

fun properAncestors :: "node \<Rightarrow> node list" where
  "properAncestors [] = []"
| "properAncestors (i # p) = p # properAncestors p"

definition attributedScope :: "provider \<Rightarrow> node list \<Rightarrow> node \<Rightarrow> node option" where
  "attributedScope P sync n =
     find (\<lambda>a. \<not> (isFunctionNode P (Some a) \<and> a \<in> set sync))
       (filter (\<lambda>a. isProgramOrFunctionNode P (Some a)) (properAncestors n))"

lemma find_node_ancestors: "find_node pred n = find pred (n # properAncestors n)"
  by (induction n) auto

lemma findParent_ancestors: "findParent pred n = find pred (properAncestors n)"
  by (cases n) (simp_all add: findParent_def find_node_ancestors)

lemma skipSyncCallbacks_ancestors:
  "skipSyncCallbacks P sync (find (\<lambda>a. isProgramOrFunctionNode P (Some a)) (properAncestors n))
     = attributedScope P sync n"
proof (induction n)
  case Nil
  then show ?case by (simp add: attributedScope_def)
next
  case (Cons i p)
  show ?case
  proof (cases "isProgramOrFunctionNode P (Some p)")
    case True
    then show ?thesis
      using Cons.IH by (simp add: attributedScope_def findParent_ancestors)
  next
    case False
    then show ?thesis
      using Cons.IH by (simp add: attributedScope_def)
  qed
qed

text \<open>
  C7. For a reference checked while a frame is being exited (the stack is not empty),
  \<open>isReferenceInCurrentScope\<close> returns true if and only if the nearest enclosing
  function-or-program ancestor of the reference's identifier, after every ancestor that is
  a function of the sync-callback set has been replaced by its own enclosing
  function-or-program ancestor, is the node of the frame on top of the stack.
\<close>

theorem isReferenceInCurrentScope_spec:
  assumes "stack st \<noteq> []"
  shows "isReferenceInCurrentScope P st r =
           Inr (attributedScope P (syncCallbacks st) (ident r) = Some (node (last (stack st))))"
  using assms
  by (simp add: isReferenceInCurrentScope_def currentScope_def findParent_ancestors
        skipSyncCallbacks_ancestors)

theorem isReferenceInCurrentScope_spec_witness:
  "stack effectFrames \<noteq> [] \<and> stack syncFrame \<noteq> []
   \<and> isReferenceInCurrentScope effectCalled effectFrames (readRef [0,1,0,1,0,2]) = Inr True
   \<and> attributedScope effectCalled [] [0,1,0,1,0,2] = Some [1,0,2]
   \<and> isReferenceInCurrentScope effectCalled syncFrame (readRef [0,1,0,1,0,2]) = Inr True
   \<and> attributedScope effectCalled [[1,0,2]] [0,1,0,1,0,2] = Some []"
proof -
  have h: "stack effectFrames \<noteq> []" "stack syncFrame \<noteq> []"
    by (simp_all add: effectFrames_def syncFrame_def)
  have a: "attributedScope effectCalled [] [0,1,0,1,0,2] = Some [1,0,2]" by code_simp
  have b: "attributedScope effectCalled [[1,0,2]] [0,1,0,1,0,2] = Some []" by code_simp
  from isReferenceInCurrentScope_spec [OF h(1), of effectCalled "readRef [0,1,0,1,0,2]"]
    isReferenceInCurrentScope_spec [OF h(2), of effectCalled "readRef [0,1,0,1,0,2]"] a b h
  show ?thesis
    by (simp add: effectFrames_def syncFrame_def readRef_def create_def newScopeStackItem_def)
qed

section \<open>Member accesses on props and stores\<close>

text \<open>The convention in the words of the specification: \<open>initial*\<close>, \<open>default*\<close>,
  \<open>static*\<close>, a name that starts with one of the three words.\<close>

definition exemptedConvention :: "string \<Rightarrow> bool" where
  "exemptedConvention s =
     (startsWith ''initial'' s \<or> startsWith ''default'' s \<or> startsWith ''static'' s)"

lemma prefixThenUpper_iff:
  "prefixThenUpper ps s \<longleftrightarrow> (\<exists>p c rest. p \<in> set ps \<and> s = p @ c # rest \<and> is_upper c)"
proof
  assume "prefixThenUpper ps s"
  then obtain p where p: "p \<in> set ps" "take (length p) s = p" "length p < length s"
    "is_upper (s ! length p)"
    by (auto simp: prefixThenUpper_def list_ex_iff startsWith_def)
  have "s = take (length p) s @ s ! length p # drop (Suc (length p)) s"
    using p(3) by (simp add: id_take_nth_drop [symmetric])
  with p show "\<exists>p c rest. p \<in> set ps \<and> s = p @ c # rest \<and> is_upper c" by metis
next
  assume "\<exists>p c rest. p \<in> set ps \<and> s = p @ c # rest \<and> is_upper c"
  then obtain p c rest where q: "p \<in> set ps" "s = p @ c # rest" "is_upper c" by blast
  then have "startsWith p s \<and> length p < length s \<and> is_upper (s ! length p)"
    by (simp add: startsWith_def)
  with q(1) show "prefixThenUpper ps s"
    unfolding prefixThenUpper_def list_ex_iff by blast
qed

text \<open>
  C8 (as amended). For a drained props or store reference that is no write, whose
  identifier is the object of a member expression that is not the target of an assignment:
  when the property is an identifier whose name is \<open>initial\<close>, \<open>default\<close> or \<open>static\<close>
  followed by an upper-case ASCII letter (and then anything), nothing happens and no
  diagnostic is produced; otherwise the access goes through \<open>handleTrackedScopes\<close>, the
  same check an invoked signal read goes through.
\<close>

theorem props_member_access:
  assumes "\<not> isWrite r"
    and "ty P (parent (ident r)) = Some MemberExpression"
    and "child P (parent (ident r)) F_object = Some (ident r)"
    and "\<not> (ty P (up (parent (ident r))) = Some AssignmentExpression
            \<and> child P (up (parent (ident r))) F_left = parent (ident r))"
  shows "propsBody P r d st =
           (if ty P (child P (parent (ident r)) F_property) = Some Identifier
               \<and> exemptPropertyName (nameOf P (child P (parent (ident r)) F_property))
            then Inr st
            else handleTrackedScopes P (ident r) d st)
     \<and> (exemptPropertyName s \<longleftrightarrow>
          (\<exists>p c rest. p \<in> {''initial'', ''default'', ''static''} \<and> s = p @ c # rest \<and> is_upper c))
     \<and> (\<not> isWrite r' \<and> ty P (Some (ident r')) = Some Identifier
          \<and> ty P (parent (ident r')) = Some CallExpression
        \<longrightarrow> signalBody P r' d st = handleTrackedScopes P (ident r') d st)"
  using assms
  by (auto simp: propsBody_def signalBody_def Let_def exemptPropertyName_def prefixThenUpper_iff)


lemma lint_component_initialize:
  "lint (componentReading ''initialize'')
     = Inr [\<lparr>r_node = [0,0,2,0], messageId = untrackedReactive,
             r_data = [(''name'', ''props.initialize'')]\<rparr>]"
  by code_simp

lemma lint_component_initialValue: "lint (componentReading ''initialValue'') = Inr []"
  by code_simp

theorem props_member_access_witness:
  "\<not> isWrite (readRef [0,0,0,2,0])
   \<and> ty (componentReading ''initialValue'') (parent (ident (readRef [0,0,0,2,0])))
       = Some MemberExpression
   \<and> propsBody (componentReading ''initialValue'') (readRef [0,0,0,2,0]) [0] twoFrames
       = Inr twoFrames
   \<and> exemptPropertyName ''initialValue''
   \<and> \<not> exemptPropertyName ''initialize''
   \<and> signalBody directRead (readRef [0,1,0,2]) [] twoFrames
       = handleTrackedScopes directRead [0,1,0,2] [] twoFrames"
proof -
  let ?P = "componentReading ''initialValue''" and ?r = "readRef [0,0,0,2,0]"
  have w: "\<not> isWrite ?r" by (simp add: readRef_def)
  have m: "ty ?P (parent (ident ?r)) = Some MemberExpression" by code_simp
  have ob: "child ?P (parent (ident ?r)) F_object = Some (ident ?r)" by code_simp
  have na: "\<not> (ty ?P (up (parent (ident ?r))) = Some AssignmentExpression
            \<and> child ?P (up (parent (ident ?r))) F_left = parent (ident ?r))" by code_simp
  have pr: "ty ?P (child ?P (parent (ident ?r)) F_property) = Some Identifier
     \<and> exemptPropertyName (nameOf ?P (child ?P (parent (ident ?r)) F_property))" by code_simp
  have e: "exemptPropertyName ''initialValue''" "\<not> exemptPropertyName ''initialize''"
    by code_simp+
  have c: "\<not> isWrite (readRef [0,1,0,2]) \<and> ty directRead (Some (ident (readRef [0,1,0,2]))) = Some Identifier
     \<and> ty directRead (parent (ident (readRef [0,1,0,2]))) = Some CallExpression" by code_simp
  have i: "ident (readRef [0,1,0,2]) = [0,1,0,2]" by (simp add: readRef_def)
  note t1 = props_member_access [OF w m ob na, of "[0]" twoFrames "''initialValue''"
      "readRef [0,1,0,2]"]
  have s1: "propsBody ?P ?r [0] twoFrames = Inr twoFrames" using t1 pr by simp
  have s3: "signalBody directRead (readRef [0,1,0,2]) [] twoFrames
       = handleTrackedScopes directRead [0,1,0,2] [] twoFrames"
    using c i by (simp add: signalBody_def Let_def)
  from w m s1 e s3 show ?thesis by simp
qed

text \<open>C8 as stated fails: \<open>initialize\<close> matches \<open>initial*\<close>, and the access
  \<open>props.initialize\<close> is reported.\<close>

theorem props_prefix_convention_counterexample:
  "exemptedConvention ''initialize''
   \<and> lint (componentReading ''initialize'')
       = Inr [\<lparr>r_node = [0,0,2,0], messageId = untrackedReactive,
               r_data = [(''name'', ''props.initialize'')]\<rparr>]"
  using lint_component_initialize by (simp add: exemptedConvention_def startsWith_def)

section \<open>Functions that are the value of an object property\<close>





lemma lint_propertyCalled: "lint propertyCalled = Inr []"
  by code_simp




section \<open>Conservation of references\<close>

text \<open>
  What is counted for the entry with identity \<open>a\<close>: the references it has yielded so far
  (\<open>yieldedBy\<close>), the references held under that identity in \<open>signals\<close> or in \<open>props\<close>
  (\<open>heldBy\<close>); their sum is its \<open>account\<close>. \<open>originalReferences P v\<close> is what \<open>pushSignal\<close> and
  \<open>pushProps\<close> store for the variable \<open>v\<close>: its references but the initialising ones. A state
  is \<open>fresh\<close> when every entry carries an identity that has been allocated, for the variable
  the entry has, no two entries carry the same identity, and every yield carries an
  allocated identity. \<open>conserves P st s\<close> says what a piece of the run from \<open>st\<close> to \<open>s\<close> may do:
  every entry that existed keeps its account, and every entry created on the way has the
  original references of the variable it was created for as its account. \<open>keeps\<close> says that
  the entries that existed are still there, in place, with their variables and references.
\<close>

definition originalReferences :: "provider \<Rightarrow> var \<Rightarrow> reference multiset" where
  "originalReferences P v = mset (filter (\<lambda>r. \<not> init r) (v_references (variables P v)))"

definition heldBy :: "nat \<Rightarrow> binding list \<Rightarrow> reference multiset" where
  "heldBy a bs = sum_list (map (\<lambda>b. if bid b = a then mset (references b) else {#}) bs)"

definition yieldedBy :: "nat \<Rightarrow> (nat \<times> reference \<times> node) list \<Rightarrow> reference multiset" where
  "yieldedBy a ys = mset (map (\<lambda>y. fst (snd y)) (filter (\<lambda>y. fst y = a) ys))"

definition account :: "nat \<Rightarrow> state \<Rightarrow> reference multiset" where
  "account a st = yieldedBy a (yielded st) + heldBy a (signals st) + heldBy a (props st)"

definition fresh :: "state \<Rightarrow> bool" where
  "fresh st = ((\<forall>b\<in>set (signals st) \<union> set (props st).
                  bid b < allocated st \<and> registered st ! bid b = variable b)
     \<and> distinct (map bid (signals st @ props st))
     \<and> (\<forall>y\<in>set (yielded st). fst y < allocated st))"

definition conserves :: "provider \<Rightarrow> state \<Rightarrow> state \<Rightarrow> bool" where
  "conserves P st s =
     (fresh st \<longrightarrow>
        fresh s \<and> prefix (registered st) (registered s)
        \<and> (\<forall>a<allocated st. account a s = account a st)
        \<and> (\<forall>a. allocated st \<le> a \<and> a < allocated s \<longrightarrow>
              account a s = originalReferences P (registered s ! a)))"

definition bref :: "binding \<Rightarrow> nat \<times> var \<times> reference list" where
  "bref b = (bid b, variable b, references b)"

definition keeps :: "state \<Rightarrow> state \<Rightarrow> bool" where
  "keeps st s = (prefix (map bref (signals st)) (map bref (signals s))
     \<and> prefix (map bref (props st)) (map bref (props s)))"

definition extends :: "provider \<Rightarrow> state \<Rightarrow> state \<Rightarrow> bool" where
  "extends P st s = (conserves P st s \<and> keeps st s)"

definition sat :: "(state \<Rightarrow> state \<Rightarrow> bool) \<Rightarrow> error + state \<Rightarrow> state \<Rightarrow> bool" where
  "sat R m st = (\<forall>s. m = Inr s \<longrightarrow> R st s)"

lemma distinct_map_ConsD: "distinct (map f (x # xs)) \<Longrightarrow> y \<in> set xs \<Longrightarrow> f y \<noteq> f x"
  by (auto intro: rev_image_eqI)

lemma distinct_map_appendD:
  "distinct (map f (xs @ ys)) \<Longrightarrow> x \<in> set xs \<Longrightarrow> y \<in> set ys \<Longrightarrow> f x \<noteq> f y"
  by (auto simp: disjoint_iff image_iff)

lemma distinct_map_filter_append:
  "distinct (map f (xs @ ys)) \<Longrightarrow> distinct (map f (filter p xs @ ys))"
  "distinct (map f (xs @ ys)) \<Longrightarrow> distinct (map f (xs @ filter p ys))"
  by (auto simp: distinct_map_filter)

lemma map_update_same:
  "i < length xs \<Longrightarrow> f x = f (xs ! i) \<Longrightarrow> map f (xs[i := x]) = map f xs"
  by (simp add: map_update list_update_same_conv)

lemma freshI:
  assumes "\<And>b. b \<in> set (signals st) \<union> set (props st)
             \<Longrightarrow> bid b < allocated st \<and> registered st ! bid b = variable b"
    and "distinct (map bid (signals st @ props st))"
    and "\<And>y. y \<in> set (yielded st) \<Longrightarrow> fst y < allocated st"
  shows "fresh st"
  using assms unfolding fresh_def by blast

lemma freshD:
  assumes "fresh st"
  shows "\<And>b. b \<in> set (signals st) \<union> set (props st)
             \<Longrightarrow> bid b < allocated st \<and> registered st ! bid b = variable b"
    and "distinct (map bid (signals st @ props st))"
    and "\<And>y. y \<in> set (yielded st) \<Longrightarrow> fst y < allocated st"
  using assms unfolding fresh_def by blast+

lemma conservesI:
  assumes "fresh st \<Longrightarrow> fresh s"
    and "fresh st \<Longrightarrow> prefix (registered st) (registered s)"
    and "\<And>a. fresh st \<Longrightarrow> a < allocated st \<Longrightarrow> account a s = account a st"
    and "\<And>a. fresh st \<Longrightarrow> allocated st \<le> a \<Longrightarrow> a < allocated s
           \<Longrightarrow> account a s = originalReferences P (registered s ! a)"
  shows "conserves P st s"
  using assms unfolding conserves_def by blast

lemma prefix_nth: "prefix xs ys \<Longrightarrow> i < length xs \<Longrightarrow> ys ! i = xs ! i"
  by (auto simp: prefix_def nth_append)

lemma conserves_refl: "conserves P st st"
  by (rule conservesI) auto

lemma conserves_trans:
  assumes "conserves P a b" "conserves P b c"
  shows "conserves P a c"
proof (rule conservesI)
  assume f: "fresh a"
  with assms(1) have fb: "fresh b" and pab: "prefix (registered a) (registered b)"
    and oab: "\<And>x. x < allocated a \<Longrightarrow> account x b = account x a"
    and nab: "\<And>x. allocated a \<le> x \<Longrightarrow> x < allocated b
                \<Longrightarrow> account x b = originalReferences P (registered b ! x)"
    by (simp_all add: conserves_def)
  from fb assms(2) have fc: "fresh c" and pbc: "prefix (registered b) (registered c)"
    and obc: "\<And>x. x < allocated b \<Longrightarrow> account x c = account x b"
    and nbc: "\<And>x. allocated b \<le> x \<Longrightarrow> x < allocated c
                \<Longrightarrow> account x c = originalReferences P (registered c ! x)"
    by (simp_all add: conserves_def)
  have lab: "allocated a \<le> allocated b" using pab by (rule prefix_length_le)
  show "fresh c" by (rule fc)
  show "prefix (registered a) (registered c)" using pab pbc by (rule prefix_order.order_trans)
  fix x
  show "account x c = account x a" if "x < allocated a"
    using that oab obc lab by simp
  show "account x c = originalReferences P (registered c ! x)"
    if "allocated a \<le> x" "x < allocated c"
  proof (cases "x < allocated b")
    case True
    then have "account x c = originalReferences P (registered b ! x)"
      using obc nab that(1) by simp
    moreover have "registered c ! x = registered b ! x" using pbc True by (rule prefix_nth)
    ultimately show ?thesis by simp
  next
    case False
    then show ?thesis using nbc that(2) by simp
  qed
qed

lemma keeps_refl: "keeps st st"
  by (simp add: keeps_def)

lemma keeps_trans: "keeps a b \<Longrightarrow> keeps b c \<Longrightarrow> keeps a c"
  unfolding keeps_def by (meson prefix_order.order_trans)

lemma extends_refl: "extends P st st"
  by (simp add: extends_def conserves_refl keeps_refl)

lemma extends_trans: "extends P a b \<Longrightarrow> extends P b c \<Longrightarrow> extends P a c"
  unfolding extends_def using conserves_trans keeps_trans by blast

text \<open>Operations that leave the registry alone.\<close>

definition sameRegistry :: "state \<Rightarrow> state \<Rightarrow> bool" where
  "sameRegistry st s = (signals s = signals st \<and> props s = props st
     \<and> registered s = registered st \<and> yielded s = yielded st)"

lemma sameRegistry_extends:
  assumes "sameRegistry st s"
  shows "extends P st s"
proof -
  have "conserves P st s"
    using assms by (intro conservesI) (auto simp: sameRegistry_def fresh_def account_def)
  moreover have "keeps st s" using assms by (simp add: sameRegistry_def keeps_def)
  ultimately show ?thesis by (simp add: extends_def)
qed

lemma heldBy_append [simp]: "heldBy a (xs @ ys) = heldBy a xs + heldBy a ys"
  by (simp add: heldBy_def)

lemma heldBy_Nil [simp]: "heldBy a [] = {#}"
  by (simp add: heldBy_def)

lemma heldBy_Cons [simp]:
  "heldBy a (b # bs) = (if bid b = a then mset (references b) else {#}) + heldBy a bs"
  by (simp add: heldBy_def)

lemma heldBy_other: "\<forall>b\<in>set bs. bid b \<noteq> a \<Longrightarrow> heldBy a bs = {#}"
  by (induction bs) auto

lemma yieldedBy_other: "\<forall>y\<in>set ys. fst y \<noteq> a \<Longrightarrow> yieldedBy a ys = {#}"
  by (induction ys) (auto simp: yieldedBy_def)

lemma yieldedBy_append [simp]: "yieldedBy a (xs @ ys) = yieldedBy a xs + yieldedBy a ys"
  by (simp add: yieldedBy_def)

lemma yieldedBy_single [simp]:
  "yieldedBy a [(b, r, d)] = (if b = a then {#r#} else {#})"
  by (simp add: yieldedBy_def)

lemma fresh_empty:
  assumes "fresh st"
  shows "heldBy (allocated st) (signals st) = {#}" "heldBy (allocated st) (props st) = {#}"
    "yieldedBy (allocated st) (yielded st) = {#}"
proof -
  have "\<And>b. b \<in> set (signals st) \<Longrightarrow> bid b < allocated st"
    "\<And>b. b \<in> set (props st) \<Longrightarrow> bid b < allocated st"
    "\<And>y. y \<in> set (yielded st) \<Longrightarrow> fst y < allocated st"
    using freshD(1,3) [OF assms] by auto
  then have b: "\<forall>b\<in>set (signals st). bid b \<noteq> allocated st"
    "\<forall>b\<in>set (props st). bid b \<noteq> allocated st"
    "\<forall>y\<in>set (yielded st). fst y \<noteq> allocated st"
    by (metis less_irrefl)+
  show "heldBy (allocated st) (signals st) = {#}" by (rule heldBy_other [OF b(1)])
  show "heldBy (allocated st) (props st) = {#}" by (rule heldBy_other [OF b(2)])
  show "yieldedBy (allocated st) (yielded st) = {#}" by (rule yieldedBy_other [OF b(3)])
qed

lemma conserves_push:
  assumes sg: "signals s = signals st @ ext1" and pr: "props s = props st @ ext2"
    and e: "ext1 @ ext2 = [newBinding P st v scope]"
    and al: "registered s = registered st @ [v]" and y: "yielded s = yielded st"
  shows "extends P st s"
proof -
  have nb: "bid (newBinding P st v scope) = allocated st"
    "mset (references (newBinding P st v scope)) = originalReferences P v"
    "variable (newBinding P st v scope) = v"
    by (simp_all add: newBinding_def originalReferences_def)
  have ext: "(ext1 = [newBinding P st v scope] \<and> ext2 = [])
     \<or> (ext1 = [] \<and> ext2 = [newBinding P st v scope])"
    using e by (cases ext1) auto
  have "conserves P st s"
  proof (rule conservesI)
    assume f: "fresh st"
    note o = freshD [OF f]
    have ne: "bid b \<noteq> allocated st" if "b \<in> set (signals st) \<union> set (props st)" for b
      using o(1) [OF that] by simp
    show "fresh s"
    proof (rule freshI)
      fix b assume "b \<in> set (signals s) \<union> set (props s)"
      then have "b = newBinding P st v scope \<or> b \<in> set (signals st) \<union> set (props st)"
        using ext sg pr by auto
      then show "bid b < allocated s \<and> registered s ! bid b = variable b"
        using o(1) [of b] nb al by (auto simp: nth_append)
    next
      have "\<forall>x\<in>set (signals st). bid x \<noteq> allocated st"
        "\<forall>x\<in>set (props st). bid x \<noteq> allocated st"
        using ne by auto
      then show "distinct (map bid (signals s @ props s))"
        using ext sg pr nb(1) o(2) by (auto simp: image_iff)
    next
      fix z assume "z \<in> set (yielded s)"
      then show "fst z < allocated s" using o(3) [of z] y al by simp
    qed
    show "prefix (registered st) (registered s)" using al by simp
    fix a
    show "account a s = account a st" if "a < allocated st"
      using that ext nb sg pr y by (auto simp: account_def)
    show "account a s = originalReferences P (registered s ! a)"
      if "allocated st \<le> a" "a < allocated s"
    proof -
      have a: "a = allocated st" using that al by simp
      have "account a s = originalReferences P v"
        using ext nb sg pr y fresh_empty [OF f] by (auto simp: account_def a)
      then show ?thesis by (simp add: a al)
    qed
  qed
  moreover have "keeps st s" using sg pr by (simp add: keeps_def)
  ultimately show ?thesis by (simp add: extends_def)
qed

lemma extends_pushSignal: "extends P st (pushSignal P v scope st)"
  by (rule conserves_push [where ?ext1.0 = "[newBinding P st v scope]" and ?ext2.0 = "[]"])
     (simp_all add: pushSignal_def)

lemma extends_pushProps: "extends P st (pushProps P v scope st)"
  by (rule conserves_push [where ?ext1.0 = "[]" and ?ext2.0 = "[newBinding P st v scope]"])
     (simp_all add: pushProps_def)

lemma map_bref_setFirst:
  "map bref (setFirst p (\<lambda>s. s\<lparr>declarationScope := d\<rparr>) xs) = map bref xs"
  by (induction xs) (auto simp: bref_def)

lemma bref_eq:
  "bref x = bref y \<longleftrightarrow> bid x = bid y \<and> variable x = variable y \<and> references x = references y"
  by (simp add: bref_def)

lemma heldBy_bref: "map bref xs = map bref ys \<Longrightarrow> heldBy a xs = heldBy a ys"
proof (induction xs arbitrary: ys)
  case Nil
  then show ?case by simp
next
  case (Cons x xs)
  then obtain y ys' where y: "ys = y # ys'" "bref x = bref y" "map bref xs = map bref ys'"
    by (cases ys) auto
  have "heldBy a xs = heldBy a ys'" by (rule Cons.IH [OF y(3)])
  moreover have "bid x = bid y" "references x = references y"
    using y(2) by (simp_all only: bref_eq)
  ultimately show ?case unfolding y(1) heldBy_Cons by (simp only:)
qed

lemma owners_bref:
  "map bref xs = map bref ys \<Longrightarrow>
   (\<lambda>b. (bid b, variable b)) ` set xs = (\<lambda>b. (bid b, variable b)) ` set ys"
proof (induction xs arbitrary: ys)
  case Nil
  then show ?case by simp
next
  case (Cons x xs)
  then obtain y ys' where y: "ys = y # ys'" "bref x = bref y" "map bref xs = map bref ys'"
    by (cases ys) auto
  have "(\<lambda>b. (bid b, variable b)) ` set xs = (\<lambda>b. (bid b, variable b)) ` set ys'"
    by (rule Cons.IH [OF y(3)])
  moreover have "bid x = bid y" "variable x = variable y" using y(2) by (simp_all only: bref_eq)
  ultimately show ?case unfolding y(1) by simp
qed

lemma extends_merge:
  "extends P st (st\<lparr>signals := setFirst p (\<lambda>s. s\<lparr>declarationScope := d\<rparr>) (signals st)\<rparr>)"
proof -
  let ?xs = "setFirst p (\<lambda>s. s\<lparr>declarationScope := d\<rparr>) (signals st)"
  let ?s = "st\<lparr>signals := ?xs\<rparr>"
  have m: "map bref ?xs = map bref (signals st)" by (rule map_bref_setFirst)
  have h: "heldBy a ?xs = heldBy a (signals st)" for a using heldBy_bref [OF m] .
  have b: "(\<lambda>b. (bid b, variable b)) ` set ?xs = (\<lambda>b. (bid b, variable b)) ` set (signals st)"
    using owners_bref [OF m] .
  have "conserves P st ?s"
  proof (rule conservesI)
    assume f: "fresh st"
    have "\<forall>x\<in>set ?xs. bid x < allocated st \<and> registered st ! bid x = variable x"
    proof
      fix x assume "x \<in> set ?xs"
      then have "(bid x, variable x) \<in> (\<lambda>b. (bid b, variable b)) ` set (signals st)"
        using b by blast
      then obtain y where y: "y \<in> set (signals st)" "bid y = bid x" "variable y = variable x"
        by auto
      from freshD(1) [OF f, of y] y(1)
      have "bid y < allocated st \<and> registered st ! bid y = variable y" by simp
      with y(2,3) show "bid x < allocated st \<and> registered st ! bid x = variable x" by simp
    qed
    moreover have "map bid ?xs = map bid (signals st)"
    proof -
      have "map bid ?xs = map fst (map bref ?xs)" by (simp add: bref_def comp_def)
      also have "\<dots> = map fst (map bref (signals st))" by (simp only: m)
      also have "\<dots> = map bid (signals st)" by (simp add: bref_def comp_def)
      finally show ?thesis .
    qed
    ultimately show "fresh ?s" using freshD [OF f] by (intro freshI) auto
    show "prefix (registered st) (registered ?s)" by simp
    fix a
    show "account a ?s = account a st" by (simp add: account_def h)
    show "account a ?s = originalReferences P (registered ?s ! a)"
      if "allocated st \<le> a" "a < allocated ?s"
      using that by simp
  qed
  moreover have "keeps st ?s" by (simp add: keeps_def m)
  ultimately show ?thesis by (simp add: extends_def)
qed

lemma sat_Inr: "R st s \<Longrightarrow> sat R (Inr s) st"
  by (simp add: sat_def)

lemma sat_Inl: "sat R (Inl e) st"
  by (simp add: sat_def)

lemma sat_if: "sat R x st \<Longrightarrow> sat R y st \<Longrightarrow> sat R (if c then x else y) st"
  by simp

lemma sat_case_option:
  "sat R x st \<Longrightarrow> (\<And>v. sat R (f v) st) \<Longrightarrow> sat R (case ov of None \<Rightarrow> x | Some v \<Rightarrow> f v) st"
  by (cases ov) simp_all

lemma sat_case_list:
  "sat R x st \<Longrightarrow> (\<And>v vs. sat R (f v vs) st) \<Longrightarrow> sat R (case l of [] \<Rightarrow> x | v # vs \<Rightarrow> f v vs) st"
  by (cases l) simp_all

lemma sat_andThen_value: "(\<And>x. sat R (f x) st) \<Longrightarrow> sat R (andThen m f) st"
  by (cases m) (simp_all add: sat_def)

lemma sat_andThen_when: "(\<And>x. m = Inr x \<Longrightarrow> sat R (f x) st) \<Longrightarrow> sat R (andThen m f) st"
  by (cases m) (simp_all add: sat_def)

lemma sat_if_when:
  "(c \<Longrightarrow> sat R x st) \<Longrightarrow> (\<not> c \<Longrightarrow> sat R y st) \<Longrightarrow> sat R (if c then x else y) st"
  by simp

lemma sat_andThen:
  assumes "\<And>a b c. R a b \<Longrightarrow> R b c \<Longrightarrow> R a c"
    and "sat R m st" and "\<And>s. m = Inr s \<Longrightarrow> sat R (f s) s"
  shows "sat R (andThen m f) st"
  using assms by (cases m) (auto simp: sat_def)

lemma sat_forEach:
  assumes "\<And>a. R a a" and "\<And>a b c. R a b \<Longrightarrow> R b c \<Longrightarrow> R a c"
    and "\<And>x s. sat R (f x s) s"
  shows "sat R (forEach f xs st) st"
proof (induction xs arbitrary: st)
  case Nil
  show ?case using assms(1) by (simp add: sat_def)
next
  case (Cons x xs)
  show ?case
    unfolding forEach.simps
  proof (rule sat_andThen)
    show "\<And>a b c. R a b \<Longrightarrow> R b c \<Longrightarrow> R a c" by (rule assms(2))
    show "sat R (f x st) st" by (rule assms(3))
    show "\<And>s. sat R (forEach f xs s) s" by (rule Cons.IH)
  qed
qed

lemma ext_andThen:
  assumes "sat (extends P) m st" and "\<And>s. m = Inr s \<Longrightarrow> sat (extends P) (f s) s"
  shows "sat (extends P) (andThen m f) st"
proof (rule sat_andThen)
  show "\<And>a b c. extends P a b \<Longrightarrow> extends P b c \<Longrightarrow> extends P a c" by (rule extends_trans)
  show "sat (extends P) m st" by (rule assms(1))
  show "\<And>s. m = Inr s \<Longrightarrow> sat (extends P) (f s) s" by (rule assms(2))
qed

lemma ext_forEach:
  assumes "\<And>x s. sat (extends P) (f x s) s"
  shows "sat (extends P) (forEach f xs st) st"
proof (rule sat_forEach)
  show "\<And>a. extends P a a" by (rule extends_refl)
  show "\<And>a b c. extends P a b \<Longrightarrow> extends P b c \<Longrightarrow> extends P a c" by (rule extends_trans)
  show "\<And>x s. sat (extends P) (f x s) s" by (rule assms)
qed

lemma ext_same: "sameRegistry st s \<Longrightarrow> sat (extends P) (Inr s) st"
  by (rule sat_Inr) (rule sameRegistry_extends)

lemma sameRegistry_refl [simp]: "sameRegistry st st"
  by (simp add: sameRegistry_def)

lemma sameRegistry_trans: "sameRegistry a b \<Longrightarrow> sameRegistry b c \<Longrightarrow> sameRegistry a c"
  by (simp add: sameRegistry_def)

lemma sameRegistry_fold:
  assumes "\<And>x s. sameRegistry s (g x s)"
  shows "sameRegistry st (fold g xs st)"
proof (induction xs arbitrary: st)
  case Nil
  show ?case by simp
next
  case (Cons x xs)
  show ?case using sameRegistry_trans [OF assms [of st x] Cons.IH [of "g x st"]] by simp
qed

lemma sameRegistry_if:
  "sameRegistry st x \<Longrightarrow> sameRegistry st y \<Longrightarrow> sameRegistry st (if c then x else y)"
  by simp

lemma sameRegistry_simps [simp]:
  "sameRegistry st (context_report n m d st)"
  "sameRegistry st (addSyncCallback n st)"
  "sameRegistry st (updateCurrent f st)"
  "sameRegistry st (pushUnnamedDerivedSignal n st)"
  "sameRegistry st (st\<lparr>stack := k\<rparr>)"
  "sameRegistry st (st\<lparr>importMap := i\<rparr>)"
  "sameRegistry st (markJSX st)"
  "sameRegistry st (warnShouldDestructure n x st)"
  "sameRegistry st (warnShouldAssign n st)"
  "sameRegistry st (reportBadSignal P n w st)"
  by (simp_all add: sameRegistry_def context_report_def addSyncCallback_def updateCurrent_def
        pushUnnamedDerivedSignal_def Let_def markJSX_def warnShouldDestructure_def
        warnShouldAssign_def reportBadSignal_def)

lemma ext_pushUniqueSignal: "sat (extends P) (pushUniqueSignal P v scope st) st"
  unfolding pushUniqueSignal_def
  by (intro sat_case_option sat_Inr sat_andThen_value extends_pushSignal extends_merge)

lemma ext_handleTrackedScopes: "sat (extends P) (handleTrackedScopes P i d st) st"
  unfolding handleTrackedScopes_def Let_def
  by (intro sat_case_option sat_case_list sat_if sat_Inl ext_pushUniqueSignal ext_same
        extends_refl sat_Inr) simp_all

lemma ext_signalBody: "sat (extends P) (signalBody P r d st) st"
  unfolding signalBody_def Let_def
  by (intro sat_case_option sat_if sat_Inl ext_handleTrackedScopes ext_same
        extends_refl sat_Inr) simp_all

lemma ext_propsBody: "sat (extends P) (propsBody P r d st) st"
  unfolding propsBody_def Let_def
  by (intro sat_case_option sat_if sat_Inl ext_handleTrackedScopes ext_same
        extends_refl sat_Inr) simp_all

lemma ext_pushTrackedScope: "sat (extends P) (pushTrackedScope P n ex st) st"
  unfolding pushTrackedScope_def Let_def
  by (intro sat_case_option sat_if sat_Inl ext_same)
     (auto intro: sameRegistry_trans [OF sameRegistry_simps(3) sameRegistry_simps(1)])

lemma sat_case_option_when:
  "(ov = None \<Longrightarrow> sat R x st) \<Longrightarrow> (\<And>v. ov = Some v \<Longrightarrow> sat R (f v) st)
   \<Longrightarrow> sat R (case ov of None \<Rightarrow> x | Some v \<Rightarrow> f v) st"
  by (cases ov) simp_all

lemma ext_traverse:
  "sat (extends P) (traverseTrack P scope t n st) st"
  "sat (extends P) (traverseKids P scope ks cs n st) st"
proof (induction P scope t n st and P scope ks cs n st rule: traverseTrack_traverseKids.induct)
  case (1 P scope i ks childNode st)
  show ?case
    unfolding traverseTrack.simps
  proof (intro sat_andThen_when sat_if_when ext_pushTrackedScope sat_case_option_when sat_Inl)
    fix x keys
    assume "trace P scope (callDepth P) childNode = Inr x" "\<not> permissiveMatch P x"
      "visitorKeys P (ntype i) = Some keys"
    then show "sat (extends P) (traverseKids P scope ks (candidates i keys) childNode st) st"
      by (rule 1)
  qed
next
  case (2 P scope ks n st)
  show ?case by (simp add: sat_Inr extends_refl)
next
  case (3 P scope ks c cs n st)
  show ?case
  proof (cases c)
    case None
    then show ?thesis using 3(1) by simp
  next
    case (Some k)
    show ?thesis
    proof (cases "k < length ks")
      case True
      have "sat (extends P)
          (andThen (traverseTrack P scope (ks ! k) (k # n) st) (traverseKids P scope ks cs n)) st"
        by (rule ext_andThen) (rule 3(2) [OF Some True], erule 3(3) [OF Some True])
      then show ?thesis using Some True by simp
    next
      case False
      then show ?thesis using 3(4) [OF Some False] Some by simp
    qed
  qed
qed

lemma ext_permissivelyTrackNode: "sat (extends P) (permissivelyTrackNode P scope n st) st"
  unfolding permissivelyTrackNode_def
  by (intro sat_case_option sat_Inr extends_refl ext_traverse)

lemma ext_withCurrentScopeNode:
  "(\<And>c. extends P st (f c)) \<Longrightarrow> sat (extends P) (withCurrentScopeNode st f) st"
  unfolding withCurrentScopeNode_def by (intro sat_case_option sat_Inl sat_Inr)

lemma ext_trackedJSXExpressionContainer:
  "sat (extends P) (trackedJSXExpressionContainer P n st) st"
  unfolding trackedJSXExpressionContainer_def Let_def
  by (intro sat_if ext_pushTrackedScope sat_Inr extends_refl)

lemma ext_pushProps_current:
  "sat (extends P) (withCurrentScopeNode st (\<lambda>c. pushProps P v c st)) st"
  by (rule ext_withCurrentScopeNode) (rule extends_pushProps)

lemma ext_pushSignal_current:
  "sat (extends P) (withCurrentScopeNode st (\<lambda>c. pushSignal P v c st)) st"
  by (rule ext_withCurrentScopeNode) (rule extends_pushSignal)

lemma ext_trackedCallExpression: "sat (extends P) (trackedCallExpression P n st) st"
  unfolding trackedCallExpression_def Let_def
  by (intro sat_if ext_andThen ext_forEach ext_pushTrackedScope ext_permissivelyTrackNode
        sat_Inr extends_refl)

lemma ext_trackedVariableDeclarator: "sat (extends P) (trackedVariableDeclarator P n st) st"
  unfolding trackedVariableDeclarator_def Let_def
  by (intro sat_if ext_andThen sat_case_option ext_forEach ext_pushTrackedScope
        sat_Inr extends_refl)

lemma ext_trackedAssignmentExpression: "sat (extends P) (trackedAssignmentExpression P n st) st"
  unfolding trackedAssignmentExpression_def Let_def
  by (intro sat_if ext_pushTrackedScope sat_Inr extends_refl)

lemma ext_trackedTaggedTemplateExpression:
  "sat (extends P) (trackedTaggedTemplateExpression P n st) st"
  unfolding trackedTaggedTemplateExpression_def
  by (intro ext_forEach sat_if ext_andThen ext_pushTrackedScope sat_case_option
        ext_pushProps_current sat_Inr extends_refl)

lemma ext_checkForTrackedScopes: "sat (extends P) (checkForTrackedScopes P n st) st"
  unfolding checkForTrackedScopes_def Let_def
  by (simp del: ty.simps
        add: sat_Inr extends_refl ext_trackedJSXExpressionContainer
          ext_pushTrackedScope ext_trackedCallExpression ext_trackedVariableDeclarator
          ext_trackedAssignmentExpression ext_trackedTaggedTemplateExpression
        split: option.split node_type.split)

lemma same_checkForSyncCallbacks: "sameRegistry st (checkForSyncCallbacks P n st)"
  unfolding checkForSyncCallbacks_def Let_def
  by (intro sameRegistry_if sameRegistry_refl sameRegistry_simps
        sameRegistry_trans [OF _ sameRegistry_simps(2)]
        sameRegistry_trans [OF _ sameRegistry_fold]
        | (simp split: option.split, intro conjI impI allI))+

lemma ext_checkForReactiveAssignment:
  "sat (extends P) (checkForReactiveAssignment P scope i e st) st"
  unfolding checkForReactiveAssignment_def Let_def
  by (intro sat_if sat_case_option ext_forEach ext_pushProps_current ext_pushSignal_current
        ext_same sat_Inr extends_refl sameRegistry_simps)

lemma ext_markPropsOnCondition: "sat (extends P) (markPropsOnCondition P scope n cb st) st"
  unfolding markPropsOnCondition_def Let_def
  by (intro sat_if sat_andThen_value sat_case_option sat_Inr extends_refl extends_pushProps)

lemma ext_push_frame: "extends P st (st\<lparr>stack := k\<rparr>)"
  by (rule sameRegistry_extends) simp

lemma ext_onFunctionEnter: "sat (extends P) (onFunctionEnter P n st) st"
  unfolding onFunctionEnter_def
  by (intro sat_if ext_andThen ext_markPropsOnCondition sat_Inr extends_refl ext_push_frame)

lemma ext_jsxCallbackFunction: "sat (extends P) (jsxCallbackFunction P n st) st"
  unfolding jsxCallbackFunction_def Let_def
  by (intro sat_if sat_case_option ext_pushSignal_current sat_Inr extends_refl)

lemma same_handleImportDeclaration: "sameRegistry st (handleImportDeclaration P n st)"
  unfolding handleImportDeclaration_def
  by (intro sameRegistry_if sameRegistry_fold sameRegistry_refl sameRegistry_simps)

lemma ext_onCallExpression: "sat (extends P) (onCallExpression P n st) st"
  unfolding onCallExpression_def
proof (rule ext_andThen [OF ext_checkForTrackedScopes])
  fix s
  have a: "extends P s (checkForSyncCallbacks P n s)"
    by (rule sameRegistry_extends) (rule same_checkForSyncCallbacks)
  have b: "sat (extends P) (checkForReactiveAssignment P n None n (checkForSyncCallbacks P n s))
             (checkForSyncCallbacks P n s)"
    by (rule ext_checkForReactiveAssignment)
  have c: "sat (extends P) (checkForReactiveAssignment P n None n (checkForSyncCallbacks P n s)) s"
    using a b extends_trans unfolding sat_def by blast
  show "sat (extends P)
     (let s' = checkForSyncCallbacks P n s;
          par = (case parent n of None \<Rightarrow> None
                 | Some p \<Rightarrow> Some (ignoreTransparentWrappersUp P p))
      in if ty P par \<noteq> Some AssignmentExpression \<and> ty P par \<noteq> Some VariableDeclarator
         then checkForReactiveAssignment P n None n s'
         else Inr s') s"
    unfolding Let_def by (intro sat_if c sat_Inr a)
qed

lemma ext_onVariableDeclarator: "sat (extends P) (onVariableDeclarator P n st) st"
  unfolding onVariableDeclarator_def
  by (intro sat_case_option sat_Inr extends_refl ext_andThen ext_checkForReactiveAssignment
        ext_checkForTrackedScopes)

lemma ext_onAssignmentExpression: "sat (extends P) (onAssignmentExpression P n st) st"
  unfolding onAssignmentExpression_def
  by (intro ext_andThen sat_if sat_Inr extends_refl ext_checkForReactiveAssignment
        ext_checkForTrackedScopes)

lemma ext_onFunction: "sat (extends P) (onFunction P n st) st"
  unfolding onFunction_def
  by (intro ext_andThen ext_onFunctionEnter ext_jsxCallbackFunction)

lemma ext_onEnter: "sat (extends P) (onEnter P n st) st"
  unfolding onEnter_def
  by (simp del: ty.simps
        add: sat_Inr extends_refl ext_checkForTrackedScopes ext_onCallExpression
          ext_onVariableDeclarator ext_onAssignmentExpression ext_onFunction
          ext_onFunctionEnter ext_same same_handleImportDeclaration
        split: option.split node_type.split)

definition yieldsTo :: "provider \<Rightarrow> nat \<Rightarrow> reference list \<Rightarrow> state \<Rightarrow> state \<Rightarrow> bool" where
  "yieldsTo P b ys st s =
     (fresh s \<and> prefix (registered st) (registered s) \<and> keeps st s
      \<and> (\<forall>a<allocated st. account a s = account a st + (if a = b then mset ys else {#}))
      \<and> (\<forall>a. allocated st \<le> a \<and> a < allocated s \<longrightarrow>
            account a s = originalReferences P (registered s ! a)))"

lemma yieldsTo_Nil: "fresh st \<Longrightarrow> yieldsTo P b [] st st"
  by (auto simp: yieldsTo_def keeps_refl)

lemma yieldsTo_one:
  assumes f: "fresh st" and b: "b < allocated st"
    and e: "extends P (st\<lparr>yielded := yielded st @ [(b, r, d)]\<rparr>) s"
  shows "yieldsTo P b [r] st s"
proof -
  let ?m = "st\<lparr>yielded := yielded st @ [(b, r, d)]\<rparr>"
  have fm: "fresh ?m" using f b by (auto simp: fresh_def)
  have am: "account a ?m = account a st + (if a = b then mset [r] else {#})" for a
    by (simp add: account_def)
  from e fm have c: "fresh s" "prefix (registered st) (registered s)"
    "\<And>a. a < allocated st \<Longrightarrow> account a s = account a ?m"
    "\<And>a. allocated st \<le> a \<Longrightarrow> a < allocated s
       \<Longrightarrow> account a s = originalReferences P (registered s ! a)"
    unfolding extends_def conserves_def by auto
  have k: "keeps st s" using e by (simp add: extends_def keeps_def)
  show ?thesis
    unfolding yieldsTo_def using c(1,2) k c(3) c(4) am by auto
qed

lemma yieldsTo_append:
  assumes b: "b < allocated st"
    and 1: "yieldsTo P b ys st s" and 2: "yieldsTo P b zs s t"
  shows "yieldsTo P b (ys @ zs) st t"
  unfolding yieldsTo_def
proof (intro conjI allI impI)
  have p1: "prefix (registered st) (registered s)" using 1 by (simp add: yieldsTo_def)
  have p2: "prefix (registered s) (registered t)" using 2 by (simp add: yieldsTo_def)
  have l1: "allocated st \<le> allocated s" using p1 by (rule prefix_length_le)
  show "fresh t" using 2 by (simp add: yieldsTo_def)
  show "prefix (registered st) (registered t)" using p1 p2 by (rule prefix_order.order_trans)
  show "keeps st t" using 1 2 keeps_trans by (auto simp: yieldsTo_def)
  {
    fix a assume a: "a < allocated st"
    then have "a < allocated s" using l1 by simp
    then have "account a t = account a s + (if a = b then mset zs else {#})"
      using 2 by (simp add: yieldsTo_def)
    moreover have "account a s = account a st + (if a = b then mset ys else {#})"
      using 1 a by (simp add: yieldsTo_def)
    ultimately show "account a t = account a st + (if a = b then mset (ys @ zs) else {#})"
      by simp
  }
  {
    fix a assume a: "allocated st \<le> a \<and> a < allocated t"
    show "account a t = originalReferences P (registered t ! a)"
    proof (cases "a < allocated s")
      case True
      have "a \<noteq> b" using a b by simp
      then have "account a t = account a s" using 2 True by (simp add: yieldsTo_def)
      moreover have "account a s = originalReferences P (registered s ! a)"
        using 1 a True by (simp add: yieldsTo_def)
      moreover have "registered t ! a = registered s ! a" using p2 True by (rule prefix_nth)
      ultimately show ?thesis by simp
    next
      case False
      then show ?thesis using 2 a by (simp add: yieldsTo_def)
    qed
  }
qed

lemma yieldsTo_forEach:
  assumes body: "\<And>r s. sat (extends P) (body r s) s"
  shows "fresh st \<Longrightarrow> b < allocated st \<Longrightarrow>
     forEach (\<lambda>r s. body r (s\<lparr>yielded := yielded s @ [(b, r, d)]\<rparr>)) rs st = Inr s \<Longrightarrow>
     yieldsTo P b rs st s"
proof (induction rs arbitrary: st)
  case Nil
  then show ?case by (simp add: yieldsTo_Nil)
next
  case (Cons r rs)
  from Cons.prems(3) obtain m where
    m: "body r (st\<lparr>yielded := yielded st @ [(b, r, d)]\<rparr>) = Inr m"
    and rest: "forEach (\<lambda>r s. body r (s\<lparr>yielded := yielded s @ [(b, r, d)]\<rparr>)) rs m = Inr s"
    by (auto simp: andThen_Inr_iff)
  have "extends P (st\<lparr>yielded := yielded st @ [(b, r, d)]\<rparr>) m"
    using body m unfolding sat_def by blast
  from yieldsTo_one [OF Cons.prems(1,2) this] have one: "yieldsTo P b [r] st m" .
  then have "fresh m" "b < allocated m"
    using Cons.prems(2) prefix_length_le [of "registered st" "registered m"]
    by (auto simp: yieldsTo_def)
  from Cons.IH [OF this rest] have "yieldsTo P b rs m s" .
  from yieldsTo_append [OF Cons.prems(2) one this] show ?case by simp
qed

lemma sum_list_update:
  fixes f :: "'a \<Rightarrow> 'b multiset"
  assumes "i < length xs"
  shows "sum_list (map f (xs[i := x])) + f (xs ! i) = sum_list (map f xs) + f x"
  using assms
proof (induction xs arbitrary: i)
  case Nil
  then show ?case by simp
next
  case (Cons y ys)
  show ?case
  proof (cases i)
    case 0
    then show ?thesis by (simp add: add.commute add.left_commute)
  next
    case (Suc j)
    with Cons.prems have "j < length ys" by simp
    from Cons.IH [OF this] Suc show ?thesis by (simp add: add.assoc)
  qed
qed

lemma heldBy_update:
  assumes "i < length xs"
  shows "heldBy a (xs[i := x]) + (if bid (xs ! i) = a then mset (references (xs ! i)) else {#})
       = heldBy a xs + (if bid x = a then mset (references x) else {#})"
  unfolding heldBy_def by (rule sum_list_update [OF assms])

lemma prefix_nth_bref:
  assumes "prefix (map bref xs) (map bref ys)" and "i < length xs"
  shows "i < length ys \<and> bid (ys ! i) = bid (xs ! i) \<and> references (ys ! i) = references (xs ! i)"
proof -
  from assms(1) obtain zs where z: "map bref ys = map bref xs @ zs" by (auto simp: prefix_def)
  then have l: "length ys = length xs + length zs" by (metis length_append length_map)
  with assms(2) have i: "i < length ys" by simp
  have "bref (ys ! i) = map bref ys ! i" using i by simp
  also have "\<dots> = map bref xs ! i" using z assms(2) by (simp add: nth_append)
  also have "\<dots> = bref (xs ! i)" using assms(2) by simp
  finally show ?thesis using i by (simp add: bref_eq)
qed

lemma mset_partition:
  "mset (filter p xs) + mset (filter (\<lambda>x. \<not> p x) xs) = mset xs"
  by (induction xs) auto


lemma entry_signals:
  assumes f: "fresh st" and i: "i < length (signals st)"
    and y: "yieldsTo P (bid (signals st ! i)) (filter p (references (signals st ! i))) st s"
  shows "conserves P st
     (s\<lparr>signals := (signals s)[i := (signals s ! i)
        \<lparr>references := filter (\<lambda>r. \<not> p r) (references (signals st ! i))\<rparr>]\<rparr>)"
proof -
  let ?e = "signals st ! i"
  let ?b = "bid ?e"
  let ?x = "(signals s ! i)\<lparr>references := filter (\<lambda>r. \<not> p r) (references ?e)\<rparr>"
  let ?s = "s\<lparr>signals := (signals s)[i := ?x]\<rparr>"
  have b: "?b < allocated st" using f i by (auto simp: fresh_def)
  from y have fs: "fresh s" and mono: "prefix (registered st) (registered s)"
    and k: "keeps st s"
    and old: "\<And>a. a < allocated st \<Longrightarrow>
        account a s = account a st + (if a = ?b then mset (filter p (references ?e)) else {#})"
    and new: "\<And>a. allocated st \<le> a \<Longrightarrow> a < allocated s \<Longrightarrow>
        account a s = originalReferences P (registered s ! a)"
    unfolding yieldsTo_def by auto
  from k have "prefix (map bref (signals st)) (map bref (signals s))" by (simp add: keeps_def)
  from prefix_nth_bref [OF this i] have n: "i < length (signals s)" "bid (signals s ! i) = ?b"
    "references (signals s ! i) = references ?e" by auto
  have bx: "bid ?x = ?b" using n(2) by simp
  have upd: "heldBy a ((signals s)[i := ?x])
       + (if ?b = a then mset (references ?e) else {#})
     = heldBy a (signals s)
       + (if ?b = a then mset (filter (\<lambda>r. \<not> p r) (references ?e)) else {#})" for a
  proof -
    have r: "references ?x = filter (\<lambda>r. \<not> p r) (references ?e)" by simp
    have "heldBy a ((signals s)[i := ?x])
         + (if bid (signals s ! i) = a then mset (references (signals s ! i)) else {#})
       = heldBy a (signals s) + (if bid ?x = a then mset (references ?x) else {#})"
      by (rule heldBy_update [OF n(1)])
    then show ?thesis by (simp only: bx n(2) n(3) r)
  qed
  have acc: "account a ?s + (if ?b = a then mset (references ?e) else {#})
     = account a s + (if ?b = a then mset (filter (\<lambda>r. \<not> p r) (references ?e)) else {#})" for a
  proof -
    have "account a ?s + (if ?b = a then mset (references ?e) else {#})
        = yieldedBy a (yielded s) + heldBy a (props s)
          + (heldBy a ((signals s)[i := ?x]) + (if ?b = a then mset (references ?e) else {#}))"
      by (simp add: account_def add.assoc add.commute add.left_commute)
    also have "\<dots> = yieldedBy a (yielded s) + heldBy a (props s)
          + (heldBy a (signals s)
             + (if ?b = a then mset (filter (\<lambda>r. \<not> p r) (references ?e)) else {#}))"
      by (simp only: upd)
    also have "\<dots> = account a s
          + (if ?b = a then mset (filter (\<lambda>r. \<not> p r) (references ?e)) else {#})"
      by (simp add: account_def add.assoc add.commute add.left_commute)
    finally show ?thesis .
  qed
  show ?thesis
  proof (rule conservesI)
    have "\<And>z. z \<in> set ((signals s)[i := ?x])
            \<Longrightarrow> bid z < allocated s \<and> registered s ! bid z = variable z"
    proof -
      fix z assume "z \<in> set ((signals s)[i := ?x])"
      then have "z = ?x \<or> z \<in> set (signals s)" using set_update_subset_insert by fastforce
      moreover have "signals s ! i \<in> set (signals s)" using n(1) by simp
      then have "bid ?x < allocated s \<and> registered s ! bid ?x = variable ?x"
        using freshD(1) [OF fs, of "signals s ! i"] by simp
      ultimately show "bid z < allocated s \<and> registered s ! bid z = variable z"
        using freshD(1) [OF fs, of z] by auto
    qed
    moreover have "map bid ((signals s)[i := ?x]) = map bid (signals s)"
      by (rule map_update_same [OF n(1)]) simp
    moreover have "\<And>z. z \<in> set (props s)
        \<Longrightarrow> bid z < allocated s \<and> registered s ! bid z = variable z"
      using freshD(1) [OF fs] by simp
    ultimately show "fresh ?s" using freshD(2,3) [OF fs] by (intro freshI) auto
    show "prefix (registered st) (registered ?s)" using mono by simp
  next
    fix a assume a: "a < allocated st"
    show "account a ?s = account a st"
    proof (cases "a = ?b")
      case True
      have "account a ?s + mset (references ?e)
          = account a s + mset (filter (\<lambda>r. \<not> p r) (references ?e))"
        using acc [of a] True by simp
      also have "\<dots> = account a st + (mset (filter p (references ?e))
            + mset (filter (\<lambda>r. \<not> p r) (references ?e)))"
        using old [OF a] True by (simp add: add.assoc)
      also have "\<dots> = account a st + mset (references ?e)"
        by (simp only: mset_partition)
      finally show ?thesis by simp
    next
      case False
      then show ?thesis using acc [of a] old [OF a] by simp
    qed
  next
    fix a assume a: "allocated st \<le> a" "a < allocated ?s"
    then have "a \<noteq> ?b" using b by simp
    then have "account a ?s = account a s" using acc [of a] by simp
    moreover have "account a s = originalReferences P (registered s ! a)" using new a by simp
    ultimately show "account a ?s = originalReferences P (registered ?s ! a)" by simp
  qed
qed

lemma entry_props:
  assumes f: "fresh st" and i: "i < length (props st)"
    and y: "yieldsTo P (bid (props st ! i)) (filter p (references (props st ! i))) st s"
  shows "conserves P st
     (s\<lparr>props := (props s)[i := (props s ! i)
        \<lparr>references := filter (\<lambda>r. \<not> p r) (references (props st ! i))\<rparr>]\<rparr>)"
proof -
  let ?e = "props st ! i"
  let ?b = "bid ?e"
  let ?x = "(props s ! i)\<lparr>references := filter (\<lambda>r. \<not> p r) (references ?e)\<rparr>"
  let ?s = "s\<lparr>props := (props s)[i := ?x]\<rparr>"
  have b: "?b < allocated st" using f i by (auto simp: fresh_def)
  from y have fs: "fresh s" and mono: "prefix (registered st) (registered s)"
    and k: "keeps st s"
    and old: "\<And>a. a < allocated st \<Longrightarrow>
        account a s = account a st + (if a = ?b then mset (filter p (references ?e)) else {#})"
    and new: "\<And>a. allocated st \<le> a \<Longrightarrow> a < allocated s \<Longrightarrow>
        account a s = originalReferences P (registered s ! a)"
    unfolding yieldsTo_def by auto
  from k have "prefix (map bref (props st)) (map bref (props s))" by (simp add: keeps_def)
  from prefix_nth_bref [OF this i] have n: "i < length (props s)" "bid (props s ! i) = ?b"
    "references (props s ! i) = references ?e" by auto
  have bx: "bid ?x = ?b" using n(2) by simp
  have upd: "heldBy a ((props s)[i := ?x])
       + (if ?b = a then mset (references ?e) else {#})
     = heldBy a (props s)
       + (if ?b = a then mset (filter (\<lambda>r. \<not> p r) (references ?e)) else {#})" for a
  proof -
    have r: "references ?x = filter (\<lambda>r. \<not> p r) (references ?e)" by simp
    have "heldBy a ((props s)[i := ?x])
         + (if bid (props s ! i) = a then mset (references (props s ! i)) else {#})
       = heldBy a (props s) + (if bid ?x = a then mset (references ?x) else {#})"
      by (rule heldBy_update [OF n(1)])
    then show ?thesis by (simp only: bx n(2) n(3) r)
  qed
  have acc: "account a ?s + (if ?b = a then mset (references ?e) else {#})
     = account a s + (if ?b = a then mset (filter (\<lambda>r. \<not> p r) (references ?e)) else {#})" for a
  proof -
    have "account a ?s + (if ?b = a then mset (references ?e) else {#})
        = yieldedBy a (yielded s) + heldBy a (signals s)
          + (heldBy a ((props s)[i := ?x]) + (if ?b = a then mset (references ?e) else {#}))"
      by (simp add: account_def add.assoc add.commute add.left_commute)
    also have "\<dots> = yieldedBy a (yielded s) + heldBy a (signals s)
          + (heldBy a (props s)
             + (if ?b = a then mset (filter (\<lambda>r. \<not> p r) (references ?e)) else {#}))"
      by (simp only: upd)
    also have "\<dots> = account a s
          + (if ?b = a then mset (filter (\<lambda>r. \<not> p r) (references ?e)) else {#})"
      by (simp add: account_def add.assoc add.commute add.left_commute)
    finally show ?thesis .
  qed
  show ?thesis
  proof (rule conservesI)
    have "\<And>z. z \<in> set ((props s)[i := ?x])
            \<Longrightarrow> bid z < allocated s \<and> registered s ! bid z = variable z"
    proof -
      fix z assume "z \<in> set ((props s)[i := ?x])"
      then have "z = ?x \<or> z \<in> set (props s)" using set_update_subset_insert by fastforce
      moreover have "props s ! i \<in> set (props s)" using n(1) by simp
      then have "bid ?x < allocated s \<and> registered s ! bid ?x = variable ?x"
        using freshD(1) [OF fs, of "props s ! i"] by simp
      ultimately show "bid z < allocated s \<and> registered s ! bid z = variable z"
        using freshD(1) [OF fs, of z] by auto
    qed
    moreover have "map bid ((props s)[i := ?x]) = map bid (props s)"
      by (rule map_update_same [OF n(1)]) simp
    moreover have "\<And>z. z \<in> set (signals s)
        \<Longrightarrow> bid z < allocated s \<and> registered s ! bid z = variable z"
      using freshD(1) [OF fs] by simp
    ultimately show "fresh ?s" using freshD(2,3) [OF fs] by (intro freshI) auto
    show "prefix (registered st) (registered ?s)" using mono by simp
  next
    fix a assume a: "a < allocated st"
    show "account a ?s = account a st"
    proof (cases "a = ?b")
      case True
      have "account a ?s + mset (references ?e)
          = account a s + mset (filter (\<lambda>r. \<not> p r) (references ?e))"
        using acc [of a] True by simp
      also have "\<dots> = account a st + (mset (filter p (references ?e))
            + mset (filter (\<lambda>r. \<not> p r) (references ?e)))"
        using old [OF a] True by (simp add: add.assoc)
      also have "\<dots> = account a st + mset (references ?e)"
        by (simp only: mset_partition)
      finally show ?thesis by simp
    next
      case False
      then show ?thesis using acc [of a] old [OF a] by simp
    qed
  next
    fix a assume a: "allocated st \<le> a" "a < allocated ?s"
    then have "a \<noteq> ?b" using b by simp
    then have "account a ?s = account a s" using acc [of a] by simp
    moreover have "account a s = originalReferences P (registered s ! a)" using new a by simp
    ultimately show "account a ?s = originalReferences P (registered ?s ! a)" by simp
  qed
qed

lemma conserves_drainSignals: "drainSignals P i st = Inr s \<Longrightarrow> conserves P st s"
proof (induction P i st arbitrary: s rule: drainSignals.induct)
  case (1 P i st)
  show ?case
  proof (cases "i < length (signals st)")
    case False
    with "1.prems" show ?thesis by (simp add: conserves_refl)
  next
    case True
    let ?e = "signals st ! i"
    let ?p = "\<lambda>r. isReferenceInCurrentScope P st r = Inr True"
    from "1.prems" True obtain m where
      m: "forEach (\<lambda>r s. signalBody P r (declarationScope ?e)
                    (s\<lparr>yielded := yielded s @ [(bid ?e, r, declarationScope ?e)]\<rparr>))
            (filter ?p (references ?e)) st = Inr m"
      and rest: "drainSignals P (Suc i)
            (m\<lparr>signals := (signals m)[i := (signals m ! i)
               \<lparr>references := filter (\<lambda>r. \<not> ?p r) (references ?e)\<rparr>]\<rparr>) = Inr s"
      by (subst (asm) drainSignals.simps) (auto simp: Let_def andThen_Inr_iff)
    from "1.IH" [OF True refl refl refl m rest]
    have ih: "conserves P
        (m\<lparr>signals := (signals m)[i := (signals m ! i)
           \<lparr>references := filter (\<lambda>r. \<not> ?p r) (references ?e)\<rparr>]\<rparr>) s" .
    show ?thesis
    proof (cases "fresh st")
      case False
      then show ?thesis by (simp add: conserves_def)
    next
      case f: True
      have b: "bid ?e < allocated st" using f True by (auto simp: fresh_def)
      have "yieldsTo P (bid ?e) (filter ?p (references ?e)) st m"
        by (rule yieldsTo_forEach [where body = "\<lambda>r. signalBody P r (declarationScope ?e)",
              OF ext_signalBody f b m])
      from entry_signals [OF f True this] ih show ?thesis by (rule conserves_trans)
    qed
  qed
qed

lemma conserves_drainProps: "drainProps P i st = Inr s \<Longrightarrow> conserves P st s"
proof (induction P i st arbitrary: s rule: drainProps.induct)
  case (1 P i st)
  show ?case
  proof (cases "i < length (props st)")
    case False
    with "1.prems" show ?thesis by (simp add: conserves_refl)
  next
    case True
    let ?e = "props st ! i"
    let ?p = "\<lambda>r. isReferenceInCurrentScope P st r = Inr True"
    from "1.prems" True obtain m where
      m: "forEach (\<lambda>r s. propsBody P r (declarationScope ?e)
                    (s\<lparr>yielded := yielded s @ [(bid ?e, r, declarationScope ?e)]\<rparr>))
            (filter ?p (references ?e)) st = Inr m"
      and rest: "drainProps P (Suc i)
            (m\<lparr>props := (props m)[i := (props m ! i)
               \<lparr>references := filter (\<lambda>r. \<not> ?p r) (references ?e)\<rparr>]\<rparr>) = Inr s"
      by (subst (asm) drainProps.simps) (auto simp: Let_def andThen_Inr_iff)
    from "1.IH" [OF True refl refl refl m rest]
    have ih: "conserves P
        (m\<lparr>props := (props m)[i := (props m ! i)
           \<lparr>references := filter (\<lambda>r. \<not> ?p r) (references ?e)\<rparr>]\<rparr>) s" .
    show ?thesis
    proof (cases "fresh st")
      case False
      then show ?thesis by (simp add: conserves_def)
    next
      case f: True
      have b: "bid ?e < allocated st" using f True by (auto simp: fresh_def)
      have "yieldsTo P (bid ?e) (filter ?p (references ?e)) st m"
        by (rule yieldsTo_forEach [where body = "\<lambda>r. propsBody P r (declarationScope ?e)",
              OF ext_propsBody f b m])
      from entry_props [OF f True this] ih show ?thesis by (rule conserves_trans)
    qed
  qed
qed

declare drainSignals.simps [simp del] drainProps.simps [simp del]

lemma sat_weaken: "sat (extends P) m st \<Longrightarrow> sat (conserves P) m st"
  by (simp add: sat_def extends_def)

lemma con_andThen:
  assumes "sat (conserves P) m st" and "\<And>s. m = Inr s \<Longrightarrow> sat (conserves P) (f s) s"
  shows "sat (conserves P) (andThen m f) st"
proof (rule sat_andThen)
  show "\<And>a b c. conserves P a b \<Longrightarrow> conserves P b c \<Longrightarrow> conserves P a c"
    by (rule conserves_trans)
  show "sat (conserves P) m st" by (rule assms(1))
  show "\<And>s. m = Inr s \<Longrightarrow> sat (conserves P) (f s) s" by (rule assms(2))
qed

lemma heldBy_filter: "heldBy a (filter (\<lambda>v. references v \<noteq> []) bs) = heldBy a bs"
  by (induction bs) auto

lemma conserves_dropEmpty:
  "conserves P s (s\<lparr>signals := filter (\<lambda>v. references v \<noteq> []) (signals s)\<rparr>)"
  "conserves P s (s\<lparr>props := filter (\<lambda>v. references v \<noteq> []) (props s)\<rparr>)"
  by (rule conservesI;
      auto simp: fresh_def account_def heldBy_filter distinct_map_filter
           dest: disjoint_iff [THEN iffD1])+

lemma con_consumeSignals: "sat (conserves P) (consumeSignalReferencesInScope P st) st"
  unfolding consumeSignalReferencesInScope_def
proof (rule con_andThen)
  show "sat (conserves P) (drainSignals P 0 st) st"
    unfolding sat_def by (blast intro: conserves_drainSignals)
  show "\<And>s. sat (conserves P)
          (Inr (s\<lparr>signals := filter (\<lambda>v. references v \<noteq> []) (signals s)\<rparr>)) s"
    by (rule sat_Inr) (rule conserves_dropEmpty)
qed

lemma con_consumeProps: "sat (conserves P) (consumePropsReferencesInScope P st) st"
  unfolding consumePropsReferencesInScope_def
proof (rule con_andThen)
  show "sat (conserves P) (drainProps P 0 st) st"
    unfolding sat_def by (blast intro: conserves_drainProps)
  show "\<And>s. sat (conserves P)
          (Inr (s\<lparr>props := filter (\<lambda>v. references v \<noteq> []) (props s)\<rparr>)) s"
    by (rule sat_Inr) (rule conserves_dropEmpty)
qed

lemma same_reportUnnamedDerivedSignals: "sameRegistry st (reportUnnamedDerivedSignals st)"
  unfolding reportUnnamedDerivedSignals_def Let_def
  by (intro sameRegistry_fold sameRegistry_if sameRegistry_refl sameRegistry_simps)

lemma con_exit_tail:
  "sat (conserves P)
     (let s4 = reportUnnamedDerivedSignals s3 in Inr (s4\<lparr>stack := butlast (stack s4)\<rparr>)) s3"
proof -
  have "sameRegistry s3 ((reportUnnamedDerivedSignals s3)
          \<lparr>stack := butlast (stack (reportUnnamedDerivedSignals s3))\<rparr>)"
    by (rule sameRegistry_trans [OF same_reportUnnamedDerivedSignals]) simp
  then show ?thesis
    unfolding Let_def using sameRegistry_extends by (auto simp: sat_def extends_def)
qed

lemma con_onFunctionExit: "sat (conserves P) (onFunctionExit P n st) st"
  unfolding onFunctionExit_def
  by (intro con_andThen sat_if sat_Inl con_consumeSignals con_consumeProps con_exit_tail
        sat_weaken [OF ext_markPropsOnCondition] sat_Inr conserves_refl)

lemma con_step: "sat (conserves P) (step P ev st) st"
proof (cases ev)
  case (Enter n)
  then show ?thesis by (simp add: sat_weaken [OF ext_onEnter])
next
  case (Exit n)
  then show ?thesis
    by (simp add: onExit_def con_onFunctionExit sat_Inr conserves_refl)
qed

lemma con_run: "sat (conserves P) (run P evs st) st"
  unfolding run_def
proof (rule sat_forEach)
  show "\<And>a. conserves P a a" by (rule conserves_refl)
  show "\<And>a b c. conserves P a b \<Longrightarrow> conserves P b c \<Longrightarrow> conserves P a c"
    by (rule conserves_trans)
  show "\<And>x s. sat (conserves P) (step P x s) s" by (rule con_step)
qed

lemma fresh_create: "fresh create"
  by (simp add: fresh_def create_def)

definition hostDistinct :: "provider \<Rightarrow> bool" where
  "hostDistinct P = (\<forall>v. distinct (v_references (variables P v)))"

lemma count_original:
  "hostDistinct P \<Longrightarrow> count (originalReferences P v) r \<le> 1"
  unfolding originalReferences_def hostDistinct_def
  by (metis distinct_count_atmost_1 distinct_filter count_mset_0_iff le_numeral_extra(4)
        zero_le)

lemma heldBy_distinct:
  "distinct (map bid bs) \<Longrightarrow> b \<in> set bs \<Longrightarrow> heldBy (bid b) bs = mset (references b)"
proof (induction bs)
  case Nil
  then show ?case by simp
next
  case (Cons x xs)
  show ?case
  proof (cases "b = x")
    case True
    have "\<forall>y\<in>set xs. bid y \<noteq> bid x"
      using distinct_map_ConsD [OF Cons.prems(1)] by blast
    from heldBy_other [OF this] True show ?thesis by simp
  next
    case False
    with Cons.prems have "b \<in> set xs" by simp
    with distinct_map_ConsD [OF Cons.prems(1)] have "bid x \<noteq> bid b" by metis
    note \<open>b \<in> set xs\<close> this
    with Cons.IH Cons.prems(1) show ?thesis by simp
  qed
qed

lemma held_of_entry:
  assumes d: "distinct (map bid (xs @ ys))" and b: "b \<in> set xs \<union> set ys"
  shows "heldBy (bid b) xs + heldBy (bid b) ys = mset (references b)"
proof (cases "b \<in> set xs")
  case True
  have "\<forall>y\<in>set ys. bid y \<noteq> bid b" using distinct_map_appendD [OF d True] by metis
  from heldBy_other [OF this] heldBy_distinct [OF _ True] d show ?thesis by simp
next
  case False
  with b have y: "b \<in> set ys" by simp
  have "\<forall>x\<in>set xs. bid x \<noteq> bid b" using distinct_map_appendD [OF d _ y] by metis
  from heldBy_other [OF this] heldBy_distinct [OF _ y] d show ?thesis by simp
qed

text \<open>
  C1 (as amended). Reference conservation, for every run of the rule from a state in which
  identities are fresh (the initial state is), over any sequence of enter and exit events
  that does not abort.

  \<^item> For every entry of \<open>signals\<close> or \<open>props\<close> that exists at the start, the references it
    has yielded together with the references it still holds are the same multiset at the
    end as at the start.
  \<^item> For every entry registered during the run, the references yielded to the validator
    across all scope exits together with the references the entry still holds at the end
    are exactly the references it was registered with: the references of its own variable
    but the initialising ones, none dropped and none added. This is stated for the
    identity of the entry, whether it is still in the registry or has been removed from
    it, and again for every entry that is still there, with its own \<open>variable\<close> and its
    own \<open>references\<close>.
  \<^item> When the host lists no reference of a variable twice, no reference is yielded twice
    from the same entry: a reference is consumed by at most one scope exit.
\<close>

theorem reference_conservation:
  assumes "fresh st" and "run P evs st = Inr s"
  shows "(\<forall>a<allocated st.
            yieldedBy a (yielded s) + heldBy a (signals s) + heldBy a (props s)
          = yieldedBy a (yielded st) + heldBy a (signals st) + heldBy a (props st))
     \<and> prefix (registered st) (registered s)
     \<and> (\<forall>a. allocated st \<le> a \<and> a < allocated s \<longrightarrow>
          yieldedBy a (yielded s) + heldBy a (signals s) + heldBy a (props s)
            = originalReferences P (registered s ! a)
          \<and> (hostDistinct P \<longrightarrow> (\<forall>r. count (yieldedBy a (yielded s)) r \<le> 1)))
     \<and> (\<forall>b\<in>set (signals s) \<union> set (props s).
          bid b < allocated s \<and> registered s ! bid b = variable b
          \<and> (allocated st \<le> bid b \<longrightarrow>
               yieldedBy (bid b) (yielded s) + mset (references b)
                 = originalReferences P (variable b)))
     \<and> distinct (map bid (signals s @ props s))"
proof -
  have c: "conserves P st s" using con_run [of P evs st] assms(2) by (simp add: sat_def)
  with assms(1) have fs: "fresh s" and pre: "prefix (registered st) (registered s)"
    and old: "\<forall>a<allocated st. account a s = account a st"
    and new: "\<And>a. allocated st \<le> a \<Longrightarrow> a < allocated s
                \<Longrightarrow> account a s = originalReferences P (registered s ! a)"
    unfolding conserves_def by auto
  from fs have own: "\<And>b. b \<in> set (signals s) \<union> set (props s)
        \<Longrightarrow> bid b < allocated s \<and> registered s ! bid b = variable b"
    and dist: "distinct (map bid (signals s @ props s))"
    unfolding fresh_def by auto
  have once: "count (yieldedBy a (yielded s)) r \<le> 1"
    if a: "allocated st \<le> a" "a < allocated s" and h: "hostDistinct P" for a r
  proof -
    have "count (yieldedBy a (yielded s)) r \<le> count (account a s) r"
      by (simp add: account_def)
    also have "\<dots> \<le> 1" unfolding new [OF a] by (rule count_original [OF h])
    finally show ?thesis .
  qed
  have live: "yieldedBy (bid b) (yielded s) + mset (references b)
        = originalReferences P (variable b)"
    if b: "b \<in> set (signals s) \<union> set (props s)" and a: "allocated st \<le> bid b" for b
  proof -
    from own [OF b] have o: "bid b < allocated s" "registered s ! bid b = variable b" by auto
    have "account (bid b) s = originalReferences P (variable b)"
      using new [OF a o(1)] o(2) by simp
    moreover have "heldBy (bid b) (signals s) + heldBy (bid b) (props s) = mset (references b)"
      by (rule held_of_entry [OF dist b])
    ultimately show ?thesis by (simp add: account_def add.assoc)
  qed
  show ?thesis
  proof (intro conjI allI impI ballI)
    show "prefix (registered st) (registered s)" by (rule pre)
    show "distinct (map bid (signals s @ props s))" by (rule dist)
    fix a
    show "yieldedBy a (yielded s) + heldBy a (signals s) + heldBy a (props s)
        = yieldedBy a (yielded st) + heldBy a (signals st) + heldBy a (props st)"
      if "a < allocated st"
      using old that by (simp add: account_def)
    show "yieldedBy a (yielded s) + heldBy a (signals s) + heldBy a (props s)
        = originalReferences P (registered s ! a)"
      if "allocated st \<le> a \<and> a < allocated s"
      using new [of a] that by (simp add: account_def)
    show "count (yieldedBy a (yielded s)) r \<le> 1"
      if "allocated st \<le> a \<and> a < allocated s" "hostDistinct P" for r
      using once [of a r] that by simp
  next
    fix b assume b: "b \<in> set (signals s) \<union> set (props s)"
    show "bid b < allocated s" using own [OF b] by simp
    show "registered s ! bid b = variable b" using own [OF b] by simp
    show "yieldedBy (bid b) (yielded s) + mset (references b)
        = originalReferences P (variable b)"
      if "allocated st \<le> bid b"
      using live [OF b that] .
  qed
qed

lemma hoistedRead_run:
  "map_sum id (\<lambda>s. (yielded s, signals s, props s, registered s))
     (run hoistedRead (walk (root hoistedRead) []) create)
   = Inr ([], [\<lparr>references = [readRef [0,0,0,1,1]], variable = 0, declarationScope = [],
                bid = 0\<rparr>], [], [0])"
  by code_simp

lemma hoistedRead_original:
  "filter (\<lambda>r. \<not> init r) (v_references (variables hoistedRead 0)) = [readRef [0,0,0,1,1]]"
  by code_simp

lemma effectCalled_run:
  "map_sum id (\<lambda>s. (yielded s, signals s, props s, registered s))
     (run effectCalled (walk (root effectCalled) []) create)
   = Inr ([(0, readRef [0,1,0,1,0,2], [])], [], [], [0])"
  by code_simp

lemma effectCalled_distinct: "hostDistinct effectCalled"
  by (auto simp: hostDistinct_def effectCalled_def countHost_def hostOf_def countVariables_def
        readRef_def initRef_def)

theorem reference_conservation_witness:
  "fresh create
   \<and> (\<exists>s. run effectCalled (walk (root effectCalled) []) create = Inr s
        \<and> allocated create \<le> 0 \<and> 0 < allocated s \<and> registered s ! 0 = 0
        \<and> yielded s = [(0, readRef [0,1,0,1,0,2], [])] \<and> signals s = [] \<and> props s = []
        \<and> yieldedBy 0 (yielded s) + heldBy 0 (signals s) + heldBy 0 (props s)
            = originalReferences effectCalled 0
        \<and> hostDistinct effectCalled
        \<and> (\<forall>r. count (yieldedBy 0 (yielded s)) r \<le> 1))
   \<and> (\<exists>s b. run hoistedRead (walk (root hoistedRead) []) create = Inr s
        \<and> signals s = [b] \<and> allocated create \<le> bid b \<and> variable b = 0
        \<and> yielded s = [] \<and> references b = [readRef [0,0,0,1,1]]
        \<and> yieldedBy (bid b) (yielded s) + mset (references b)
            = originalReferences hoistedRead (variable b))"
proof -
  obtain s where s: "run effectCalled (walk (root effectCalled) []) create = Inr s"
    and v: "yielded s = [(0, readRef [0,1,0,1,0,2], [])]" "signals s = []" "props s = []"
      "registered s = [0]"
    using effectCalled_run
    by (cases "run effectCalled (walk (root effectCalled) []) create") auto
  have a: "allocated create \<le> 0 \<and> 0 < allocated s" using v by (simp add: create_def)
  note c = reference_conservation [OF fresh_create s]
  from c a have 1: "yieldedBy 0 (yielded s) + heldBy 0 (signals s) + heldBy 0 (props s)
      = originalReferences effectCalled (registered s ! 0)" by blast
  from c a effectCalled_distinct have 2: "\<forall>r. count (yieldedBy 0 (yielded s)) r \<le> 1" by blast
  obtain t where t: "run hoistedRead (walk (root hoistedRead) []) create = Inr t"
    and w: "yielded t = []"
      "signals t = [\<lparr>references = [readRef [0,0,0,1,1]], variable = 0, declarationScope = [],
                     bid = 0\<rparr>]"
    using hoistedRead_run
    by (cases "run hoistedRead (walk (root hoistedRead) []) create") auto
  let ?b = "\<lparr>references = [readRef [0,0,0,1,1]], variable = 0, declarationScope = [], bid = 0\<rparr>"
  from reference_conservation [OF fresh_create t] w
  have 3: "yieldedBy (bid ?b) (yielded t) + mset (references ?b)
      = originalReferences hoistedRead (variable ?b)"
    by (simp add: create_def)
  have "\<exists>b. signals t = [b] \<and> allocated create \<le> bid b \<and> variable b = 0
        \<and> yielded t = [] \<and> references b = [readRef [0,0,0,1,1]]
        \<and> yieldedBy (bid b) (yielded t) + mset (references b)
            = originalReferences hoistedRead (variable b)"
    by (rule exI [of _ ?b]) (use w 3 in \<open>simp add: create_def\<close>)
  with t have 4: "\<exists>s b. run hoistedRead (walk (root hoistedRead) []) create = Inr s
        \<and> signals s = [b] \<and> allocated create \<le> bid b \<and> variable b = 0
        \<and> yielded s = [] \<and> references b = [readRef [0,0,0,1,1]]
        \<and> yieldedBy (bid b) (yielded s) + mset (references b)
            = originalReferences hoistedRead (variable b)" by blast
  from s v a 1 2 effectCalled_distinct
  have "\<exists>s. run effectCalled (walk (root effectCalled) []) create = Inr s
        \<and> allocated create \<le> 0 \<and> 0 < allocated s \<and> registered s ! 0 = 0
        \<and> yielded s = [(0, readRef [0,1,0,1,0,2], [])] \<and> signals s = [] \<and> props s = []
        \<and> yieldedBy 0 (yielded s) + heldBy 0 (signals s) + heldBy 0 (props s)
            = originalReferences effectCalled 0
        \<and> hostDistinct effectCalled
        \<and> (\<forall>r. count (yieldedBy 0 (yielded s)) r \<le> 1)"
    by (intro exI [of _ s]) simp
  with 4 fresh_create show ?thesis by blast
qed

text \<open>C1 as stated fails: the reference to \<open>count\<close> inside \<open>foo\<close> is in the reference list of
  the entry for \<open>count\<close>, and at the end of the run, after the exit of the program, no scope
  exit has consumed it: nothing was yielded and the entry still holds it.\<close>

theorem never_consumed_counterexample:
  "filter (\<lambda>r. \<not> init r) (v_references (variables hoistedRead 0)) = [readRef [0,0,0,1,1]]
   \<and> map_sum id (\<lambda>s. (yielded s, signals s, props s, registered s))
       (run hoistedRead (walk (root hoistedRead) []) create)
     = Inr ([], [\<lparr>references = [readRef [0,0,0,1,1]], variable = 0, declarationScope = [],
                  bid = 0\<rparr>], [], [0])"
  using hoistedRead_original hoistedRead_run by simp

end
